theory Spec2Isabelle
  imports Main "HOL-Library.Word"
begin

section \<open>The typed iteration and pagination layer of package orm\<close>

text \<open>
  A shallow embedding of the iterator file of package \<open>orm\<close>: \<open>IteratorFunc\<close>,
  \<open>NewSingleValueIterator\<close>, \<open>NewInvalidIterator\<close>, \<open>LimitedIterator\<close>, \<open>Paginate\<close>,
  \<open>ReadAll\<close> and \<open>assertDest\<close>.

  \<^item> A Go byte slice is \<open>8 word list option\<close>: \<open>None\<close> is the \<open>nil\<close> slice, \<open>Some []\<close> an
    empty slice that is not \<open>nil\<close>. The code tests both \<open>key != nil\<close> and \<open>len(key) != 0\<close>.
  \<^item> \<open>uint64\<close> is \<open>64 word\<close>: \<open>offset + limit\<close>, \<open>count++\<close> and \<open>end + 1\<close> wrap around.
  \<^item> An \<open>Iterator\<close> is an interface value. It is modelled by a state of any type \<open>'s\<close>
    together with its two methods as functions on that state; \<open>None\<close> is the \<open>nil\<close>
    interface.
  \<^item> A destination of \<open>LoadNext\<close> is \<open>'m option\<close>: \<open>None\<close> is \<open>nil\<close>, \<open>Some m\<close> a pointer to a
    model whose content is \<open>m\<close>. \<open>LoadNext\<close> returns the \<open>RowID\<close>, the error and the content of
    the destination after the call.
\<close>

subsection \<open>Errors\<close>

type_synonym bytes = "8 word list option"

type_synonym RowID = bytes

text \<open>
  Modelled from the spec: the error values \<open>ErrArgument\<close>, \<open>ErrIteratorDone\<close> and
  \<open>ErrIteratorInvalid\<close> and the test \<open>Is\<close> are declared outside the files at hand. The
  spec's taxonomy has ArgumentError, IteratorDone, IteratorInvalid, the plain error of
  a malformed request, and decode errors passed on as they are. \<open>Wrap e msg\<close> is
  \<open>errors.Wrap(e, msg)\<close>; \<open>Errorf msg\<close> is a plain error made by \<open>fmt.Errorf\<close>, which also
  stands for any error of the decoder.
\<close>

datatype error =
    ErrArgument
  | ErrIteratorDone
  | ErrIteratorInvalid
  | Wrap error string
  | Errorf string

text \<open>\<open>Is target err\<close> is \<open>target.Is(err)\<close>: it follows the chain of wrapped errors, and
  is false of the \<open>nil\<close> error.\<close>

fun Is :: "error \<Rightarrow> error option \<Rightarrow> bool" where
  "Is target None = False"
| "Is target (Some (Wrap cause msg)) = Is target (Some cause)"
| "Is target (Some e) = (e = target)"

text \<open>A call either panics, returns an error, or returns a value.\<close>

datatype 'a go_result = Panics string | Fails error | Returns 'a

subsection \<open>Iterators\<close>

type_synonym 'm LoadResult = "RowID \<times> error option \<times> 'm option"

type_synonym ('m, 's) LoadNextFn = "'m option \<Rightarrow> 's \<Rightarrow> 'm LoadResult \<times> 's"

type_synonym 's CloseFn = "'s \<Rightarrow> error option \<times> 's"

text \<open>\<open>IteratorFunc\<close>: \<open>LoadNext\<close> calls the function, \<open>Close\<close> always returns \<open>nil\<close>.\<close>

definition IteratorFunc_LoadNext :: "('m, 's) LoadNextFn \<Rightarrow> ('m, 's) LoadNextFn" where
  "IteratorFunc_LoadNext i dest s = i dest s"

definition IteratorFunc_Close :: "'s CloseFn" where
  "IteratorFunc_Close s = (None, s)"

text \<open>
  \<open>NewSingleValueIterator(rowID, val)\<close>: the closure's state is its variable \<open>closed\<close>,
  \<open>False\<close> at construction. \<open>Unmarshal\<close> is the decoder of the model type, a parameter: it
  returns its error and the content of the destination after decoding.
\<close>

definition NewSingleValueIterator ::
  "('m \<Rightarrow> bytes \<Rightarrow> error option \<times> 'm) \<Rightarrow> RowID \<Rightarrow> bytes \<Rightarrow> ('m, bool) LoadNextFn" where
  "NewSingleValueIterator Unmarshal rowID val dest closed =
     (case dest of
        None \<Rightarrow> ((None, Some (Wrap ErrArgument ''destination object must not be nil''), None), closed)
      | Some d \<Rightarrow>
          if closed \<or> val = None then ((None, Some ErrIteratorDone, Some d), closed)
          else (case Unmarshal d val of (e, d') \<Rightarrow> ((rowID, e, Some d'), True)))"

definition NewInvalidIterator :: "('m, unit) LoadNextFn" where
  "NewInvalidIterator dest s = ((None, Some ErrIteratorInvalid, dest), s)"

record 's LimitedIterator =
  remainingCount :: int
  parentIterator :: 's

text \<open>
  Go's \<open>int\<close> is 32 or 64 bits wide by platform. \<open>remainingCount\<close> starts at \<open>max\<close>, which
  \<open>LimitIterator\<close> requires to be at least 0, and is only decremented when it is not 0:
  it stays between 0 and \<open>max\<close> and never wraps, so it is an \<open>int\<close> here.
\<close>

definition LimitIterator :: "'s option \<Rightarrow> int \<Rightarrow> 's LimitedIterator go_result" where
  "LimitIterator parent maxn =
     (if maxn < 0 then Panics ''quantity must not be negative''
      else case parent of
        None \<Rightarrow> Panics ''parent iterator must not be nil''
      | Some p \<Rightarrow> Returns \<lparr>remainingCount = maxn, parentIterator = p\<rparr>)"

definition LimitedIterator_LoadNext ::
  "('m, 's) LoadNextFn \<Rightarrow> ('m, 's LimitedIterator) LoadNextFn" where
  "LimitedIterator_LoadNext parent_LoadNext dest i =
     (if remainingCount i = 0 then ((None, Some ErrIteratorDone, dest), i)
      else
        let i1 = i\<lparr>remainingCount := remainingCount i - 1\<rparr> in
        case parent_LoadNext dest (parentIterator i1) of
          (r, p) \<Rightarrow> (r, i1\<lparr>parentIterator := p\<rparr>))"

definition LimitedIterator_Close :: "'s CloseFn \<Rightarrow> 's LimitedIterator CloseFn" where
  "LimitedIterator_Close parent_Close i =
     (case parent_Close (parentIterator i) of (e, p) \<Rightarrow> (e, i\<lparr>parentIterator := p\<rparr>))"

subsection \<open>Destinations and their validation\<close>

text \<open>
  What \<open>reflect\<close> sees of a type: its kind, and for a pointer or slice type the type of
  its elements. Whether a type implements \<open>codec.ProtoMarshaler\<close> is decided by method
  sets declared elsewhere: it is the parameter \<open>impl\<close> of \<open>assertDest\<close>.
\<close>

datatype Kind = Invalid | Ptr | Slice | Struct | Interface | OtherKind

datatype Type =
    StructT string
  | InterfaceT string
  | PtrT Type
  | SliceT Type
  | BasicT string

fun KindOf :: "Type \<Rightarrow> Kind" where
  "KindOf (StructT n) = Struct"
| "KindOf (InterfaceT n) = Interface"
| "KindOf (PtrT t) = Ptr"
| "KindOf (SliceT t) = Slice"
| "KindOf (BasicT n) = OtherKind"

fun Elem :: "Type \<Rightarrow> Type" where
  "Elem (PtrT t) = t"
| "Elem (SliceT t) = t"
| "Elem t = t"

text \<open>
  A \<open>ModelSlicePtr\<close> is an \<open>interface{}\<close>: the \<open>nil\<close> interface, a value that is not a
  pointer, a \<open>nil\<close> pointer, or a pointer to a variable of some type. For a pointer to a
  slice of models, the second argument is the present value of that slice (\<open>None\<close> is
  the \<open>nil\<close> slice); writing through the pointer replaces it. \<open>NonPointer t\<close> is meant
  for a type \<open>t\<close> that is not a pointer type.
\<close>

datatype 'm ModelSlicePtr =
    NilInterface
  | NonPointer Type
  | NilPointer Type
  | PointerTo Type "'m list option"

fun ValueKind :: "'m ModelSlicePtr \<Rightarrow> Kind" where
  "ValueKind NilInterface = Invalid"
| "ValueKind (NonPointer t) = KindOf t"
| "ValueKind (NilPointer t) = Ptr"
| "ValueKind (PointerTo t s) = Ptr"

fun ElemKind :: "'m ModelSlicePtr \<Rightarrow> Kind" where
  "ElemKind (PointerTo t s) = KindOf t"
| "ElemKind d = Invalid"

fun CanSet :: "'m ModelSlicePtr \<Rightarrow> bool" where
  "CanSet (PointerTo t s) = True"
| "CanSet d = False"

fun PointeeType :: "'m ModelSlicePtr \<Rightarrow> Type" where
  "PointeeType (PointerTo t s) = t"
| "PointeeType (NilPointer t) = t"
| "PointeeType (NonPointer t) = t"
| "PointeeType NilInterface = BasicT []"

fun deref :: "'m ModelSlicePtr \<Rightarrow> 'm list option" where
  "deref (PointerTo t s) = s"
| "deref d = None"

fun Set_dest :: "'m ModelSlicePtr \<Rightarrow> 'm list option \<Rightarrow> 'm ModelSlicePtr" where
  "Set_dest (PointerTo t s) s' = PointerTo t s'"
| "Set_dest d s' = d"

text \<open>\<open>reflect.Append\<close>: the result is never the \<open>nil\<close> slice.\<close>

fun Append :: "'m list option \<Rightarrow> 'm \<Rightarrow> 'm list option" where
  "Append None v = Some [v]"
| "Append (Some xs) v = Some (xs @ [v])"

text \<open>
  \<open>assertDest\<close> returns the element type and the working slice \<open>tmpSlice\<close>; \<open>destRef\<close> is
  the variable the destination points to, which \<open>Set_dest\<close> writes. The text of the type
  in the last message is left out.
\<close>

definition assertDest ::
  "(Type \<Rightarrow> bool) \<Rightarrow> 'm ModelSlicePtr \<Rightarrow> error + (Type \<times> 'm list option)" where
  "assertDest impl dest =
     (if dest = NilInterface then Inl (Wrap ErrArgument ''destination must not be nil'')
      else if ValueKind dest \<noteq> Ptr
        then Inl (Wrap ErrArgument ''destination must be a pointer to a slice'')
      else if ElemKind dest \<noteq> Slice
        then Inl (Wrap ErrArgument ''destination must point to a slice'')
      else if \<not> CanSet dest then Inl (Wrap ErrArgument ''destination not assignable'')
      else
        let elemType = Elem (PointeeType dest) in
        if \<not> impl elemType \<and> \<not> impl (PtrT elemType)
        then Inl (Wrap ErrArgument ''unsupported type'')
        else Inr (elemType, Some []))"

text \<open>
  The start of each round of both loops: \<open>obj := reflect.New(elemType)\<close>, and for an
  element type that is a pointer a second allocation for what it points to. \<open>New t\<close> is
  the zero value of type \<open>t\<close>, a parameter. \<open>modelType\<close> is the type of \<open>model\<close>, the value
  handed to \<open>LoadNext\<close>; \<open>modelZero\<close> is the content it points to. \<open>loaded mdl d\<close> is
  \<open>val\<close> after the call, where \<open>d\<close> is the content of the destination that \<open>LoadNext\<close>
  returned; a \<open>LoadNext\<close> that returns no content is taken to have left the model as it
  was.
\<close>

definition modelType :: "Type \<Rightarrow> Type" where
  "modelType elemType = (if KindOf elemType = Ptr then elemType else PtrT elemType)"

definition modelZero :: "(Type \<Rightarrow> 'm) \<Rightarrow> Type \<Rightarrow> 'm" where
  "modelZero New elemType = (if KindOf elemType = Ptr then New (Elem elemType) else New elemType)"

fun loaded :: "'m \<Rightarrow> 'm option \<Rightarrow> 'm" where
  "loaded mdl None = mdl"
| "loaded mdl (Some v) = v"

subsection \<open>Paginate\<close>

record PageRequest =
  Key :: bytes
  Offset :: "64 word"
  Limit :: "64 word"
  CountTotal :: bool

record PageResponse =
  NextKey :: bytes
  Total :: "64 word"

fun len :: "'a list option \<Rightarrow> nat" where
  "len None = 0"
| "len (Some xs) = length xs"

text \<open>
  The loop of \<open>Paginate\<close>. Its state is the iterator, \<open>tmpSlice\<close>, \<open>count\<close>, \<open>nextKey\<close> and
  the slice the destination points to. It returns the error (\<open>None\<close> after \<open>break\<close>)
  with the final state; a loop that never ends is \<open>None\<close>. \<open>ok\<close> is the result of the
  type assertion of \<open>model\<close> to \<open>codec.ProtoMarshaler\<close>.
\<close>

partial_function (option) Paginate_loop ::
  "('m, 's) LoadNextFn \<Rightarrow> bool \<Rightarrow> 'm \<Rightarrow> 64 word \<Rightarrow> 64 word \<Rightarrow> bool \<Rightarrow> bytes \<Rightarrow>
   's \<Rightarrow> 'm list option \<Rightarrow> 64 word \<Rightarrow> bytes \<Rightarrow> 'm list option \<Rightarrow>
   (error option \<times> bytes \<times> 64 word \<times> 's \<times> 'm list option) option" where
  "Paginate_loop LoadNext ok mdl offset endc countTotal key it tmpSlice count nextKey destRef =
     (if \<not> ok
      then Some (Some (Wrap ErrArgument ''should implement codec.ProtoMarshaler''),
                 nextKey, count, it, destRef)
      else case LoadNext (Some mdl) it of ((binKey, err, d), it') \<Rightarrow>
        if Is ErrIteratorDone err then Some (None, nextKey, count, it', tmpSlice)
        else if count + 1 \<le> offset
          then Paginate_loop LoadNext ok mdl offset endc countTotal key
                 it' tmpSlice (count + 1) nextKey destRef
        else if err \<noteq> None then Some (err, nextKey, count + 1, it', destRef)
        else if count + 1 \<le> endc
          then Paginate_loop LoadNext ok mdl offset endc countTotal key
                 it' (Append tmpSlice (loaded mdl d)) (count + 1) nextKey destRef
        else if count + 1 = endc + 1
          then (if \<not> countTotal \<or> len key \<noteq> 0
                then Some (None, binKey, count + 1, it', tmpSlice)
                else Paginate_loop LoadNext ok mdl offset endc countTotal key
                       it' tmpSlice (count + 1) binKey tmpSlice)
        else Paginate_loop LoadNext ok mdl offset endc countTotal key
               it' tmpSlice (count + 1) nextKey destRef)"

text \<open>
  \<open>Paginate\<close> returns its result, the iterator as the call leaves it, and the
  destination as the call leaves it. \<open>defer it.Close()\<close> is reached only after the
  checks of the request and of the iterator; from there on every return closes the
  iterator, and the error of \<open>Close\<close> is dropped.
\<close>

definition Paginate ::
  "(Type \<Rightarrow> bool) \<Rightarrow> (Type \<Rightarrow> 'm) \<Rightarrow> ('m, 's) LoadNextFn \<Rightarrow> 's CloseFn \<Rightarrow>
   's option \<Rightarrow> PageRequest option \<Rightarrow> 'm ModelSlicePtr \<Rightarrow>
   (PageResponse go_result \<times> 's option \<times> 'm ModelSlicePtr) option" where
  "Paginate impl New LoadNext Close it pageRequest dest =
     (let pageRequest = (case pageRequest of
            None \<Rightarrow> \<lparr>Key = None, Offset = 0, Limit = 0, CountTotal = False\<rparr>
          | Some p \<Rightarrow> p);
          offset = Offset pageRequest;
          key = Key pageRequest;
          limit = Limit pageRequest;
          countTotal = CountTotal pageRequest
      in
      if offset > 0 \<and> key \<noteq> None
      then Some (Fails (Errorf ''invalid request, either offset or key is expected, got both''),
                 it, dest)
      else
        let countTotal = (if limit = 0 then True else countTotal);
            limit = (if limit = 0 then 100 else limit)
        in
        case it of
          None \<Rightarrow> Some (Fails (Wrap ErrArgument ''iterator must not be nil''), None, dest)
        | Some s \<Rightarrow>
            (case assertDest impl dest of
               Inl e \<Rightarrow> Some (Fails e, Some (snd (Close s)), dest)
             | Inr (elemType, tmpSlice) \<Rightarrow>
                 (case Paginate_loop LoadNext (impl (modelType elemType)) (modelZero New elemType)
                         offset (offset + limit) countTotal key s tmpSlice 0 None (deref dest) of
                    None \<Rightarrow> None
                  | Some (err, nextKey, count, s', destRef) \<Rightarrow>
                      (case err of
                         Some e \<Rightarrow> Some (Fails e, Some (snd (Close s')), Set_dest dest destRef)
                       | None \<Rightarrow>
                           Some (Returns \<lparr>NextKey = nextKey,
                                          Total = (if countTotal \<and> len key = 0 then count else 0)\<rparr>,
                                 Some (snd (Close s')), Set_dest dest destRef)))))"

subsection \<open>ReadAll\<close>

text \<open>
  The loop of \<open>ReadAll\<close>. The type assertion of \<open>model\<close> has no second result here, so it
  panics where it fails. \<open>rowIDs\<close> starts as the \<open>nil\<close> slice.
\<close>

partial_function (option) ReadAll_loop ::
  "('m, 's) LoadNextFn \<Rightarrow> bool \<Rightarrow> 'm \<Rightarrow> 's \<Rightarrow> 'm list option \<Rightarrow> RowID list option \<Rightarrow>
   'm list option \<Rightarrow> (RowID list option go_result \<times> 's \<times> 'm list option) option" where
  "ReadAll_loop LoadNext ok mdl it tmpSlice rowIDs destRef =
     (if \<not> ok then Some (Panics ''interface conversion'', it, destRef)
      else case LoadNext (Some mdl) it of ((binKey, err, d), it') \<Rightarrow>
        (case err of
           None \<Rightarrow>
             ReadAll_loop LoadNext ok mdl it' (Append tmpSlice (loaded mdl d))
               (Append rowIDs binKey) destRef
         | Some e \<Rightarrow>
             if Is ErrIteratorDone err then Some (Returns rowIDs, it', tmpSlice)
             else Some (Fails e, it', destRef)))"

definition ReadAll ::
  "(Type \<Rightarrow> bool) \<Rightarrow> (Type \<Rightarrow> 'm) \<Rightarrow> ('m, 's) LoadNextFn \<Rightarrow> 's CloseFn \<Rightarrow>
   's option \<Rightarrow> 'm ModelSlicePtr \<Rightarrow>
   (RowID list option go_result \<times> 's option \<times> 'm ModelSlicePtr) option" where
  "ReadAll impl New LoadNext Close it dest =
     (case it of
        None \<Rightarrow> Some (Fails (Wrap ErrArgument ''iterator must not be nil''), None, dest)
      | Some s \<Rightarrow>
          (case assertDest impl dest of
             Inl e \<Rightarrow> Some (Fails e, Some (snd (Close s)), dest)
           | Inr (elemType, tmpSlice) \<Rightarrow>
               (case ReadAll_loop LoadNext (impl (modelType elemType)) (modelZero New elemType)
                       s tmpSlice None (deref dest) of
                  None \<Rightarrow> None
                | Some (r, s', destRef) \<Rightarrow> Some (r, Some (snd (Close s')), Set_dest dest destRef))))"


declare Paginate_loop.simps [code]

declare ReadAll_loop.simps [code]

subsection \<open>Runs of an iterator\<close>

text \<open>The parts of what \<open>LoadNext\<close> returns.\<close>

definition keyOf :: "'m LoadResult \<Rightarrow> RowID" where
  "keyOf r = fst r"

definition errOf :: "'m LoadResult \<Rightarrow> error option" where
  "errOf r = fst (snd r)"

definition valOf :: "'m \<Rightarrow> 'm LoadResult \<Rightarrow> 'm" where
  "valOf mdl r = loaded mdl (snd (snd r))"

text \<open>\<open>run LoadNext s ds\<close> calls \<open>LoadNext\<close> once for each destination of \<open>ds\<close>, in order,
  and returns what the calls returned and the iterator after the last one.\<close>

fun run :: "('m, 's) LoadNextFn \<Rightarrow> 's \<Rightarrow> 'm option list \<Rightarrow> 'm LoadResult list \<times> 's" where
  "run LoadNext s [] = ([], s)"
| "run LoadNext s (d # ds) =
     (case LoadNext d s of (r, s1) \<Rightarrow>
        (case run LoadNext s1 ds of (rs, s2) \<Rightarrow> (r # rs, s2)))"

text \<open>
  \<open>emits LoadNext mdl s rs s'\<close>: called again and again with a fresh model \<open>mdl\<close>, the
  iterator in state \<open>s\<close> returns the results \<open>rs\<close>, none of them \<open>ErrIteratorDone\<close>, and is
  then in state \<open>s'\<close>. \<open>exhausted\<close>: the next call reports \<open>ErrIteratorDone\<close>.
\<close>

fun emits :: "('m, 's) LoadNextFn \<Rightarrow> 'm \<Rightarrow> 's \<Rightarrow> 'm LoadResult list \<Rightarrow> 's \<Rightarrow> bool" where
  "emits LoadNext mdl s [] s' = (s' = s)"
| "emits LoadNext mdl s (r # rs) s' =
     (fst (LoadNext (Some mdl) s) = r \<and> \<not> Is ErrIteratorDone (errOf r) \<and>
      emits LoadNext mdl (snd (LoadNext (Some mdl) s)) rs s')"

definition exhausted :: "('m, 's) LoadNextFn \<Rightarrow> 'm \<Rightarrow> 's \<Rightarrow> bool" where
  "exhausted LoadNext mdl s = Is ErrIteratorDone (errOf (fst (LoadNext (Some mdl) s)))"

subsection \<open>Iterators and values for examples\<close>

text \<open>
  An iterator that replays a recorded list of results and then reports
  \<open>ErrIteratorDone\<close>; its \<open>Close\<close> sets a flag, so that a call of \<open>Close\<close> can be seen.
\<close>

definition Replay_LoadNext :: "('m, 'm LoadResult list \<times> bool) LoadNextFn" where
  "Replay_LoadNext dest s =
     (case fst s of
        [] \<Rightarrow> ((None, Some ErrIteratorDone, dest), s)
      | r # rs \<Rightarrow> (r, (rs, snd s)))"

definition Replay_Close :: "('m LoadResult list \<times> bool) CloseFn" where
  "Replay_Close s = (None, (fst s, True))"

text \<open>A decoder of models that are numbers: the length of the buffer, and an error on
  the one-byte buffer 255.\<close>

definition Unmarshal_nat :: "nat \<Rightarrow> bytes \<Rightarrow> error option \<times> nat" where
  "Unmarshal_nat d val = (if val = Some [255] then (Some (Errorf ''bad wire type''), d)
                          else (None, len val))"

text \<open>A model type \<open>GroupInfo\<close> whose pointer type implements \<open>codec.ProtoMarshaler\<close>.\<close>

definition impl_GroupInfo :: "Type \<Rightarrow> bool" where
  "impl_GroupInfo t = (t = PtrT (StructT ''GroupInfo''))"

definition New_nat :: "Type \<Rightarrow> nat" where
  "New_nat t = 0"

text \<open>\<open>all_done rs\<close>: every result of \<open>rs\<close> reports \<open>ErrIteratorDone\<close>.\<close>

definition all_done :: "'m LoadResult list \<Rightarrow> bool" where
  "all_done rs = (\<forall>r \<in> set rs. Is ErrIteratorDone (errOf r))"

text \<open>Three rows read without error, for examples.\<close>

definition three_rows :: "nat LoadResult list" where
  "three_rows = [(Some [1], None, Some 10), (Some [2], None, Some 20), (Some [3], None, Some 30)]"

text \<open>\<open>rows n\<close>: \<open>n\<close> rows read without error, row \<open>i\<close> with RowID \<open>[i]\<close> and model \<open>i\<close>; three rows
  followed by one that fails to decode; a destination \<open>*[]GroupInfo\<close> with its slice.\<close>

definition rows :: "nat \<Rightarrow> nat LoadResult list" where
  "rows n = map (\<lambda>i. (Some [of_nat i], None, Some i)) [0..<n]"

definition rows_then_error :: "nat LoadResult list" where
  "rows_then_error = three_rows @ [(Some [4], Some (Errorf ''bad wire type''), Some 0)]"

definition GroupInfos :: "nat list option \<Rightarrow> nat ModelSlicePtr" where
  "GroupInfos s = PointerTo (SliceT (StructT ''GroupInfo'')) s"

text \<open>A row that fails to decode, followed by a row read without error.\<close>

definition error_then_row :: "nat LoadResult list" where
  "error_then_row = [(Some [4], Some (Errorf ''bad wire type''), Some 0), (Some [1], None, Some 10)]"

section \<open>Properties\<close>

lemma keyOf_triple [simp]: "keyOf (k, e, d) = k"
  by (simp add: keyOf_def)

lemma errOf_triple [simp]: "errOf (k, e, d) = e"
  by (simp add: errOf_def)

lemma valOf_triple [simp]: "valOf mdl (k, e, d) = loaded mdl d"
  by (simp add: valOf_def)

subsection \<open>Destination validation\<close>

text \<open>
  C8. \<open>assertDest\<close> fails with an ArgumentError for a \<open>nil\<close> destination, for a
  destination that is not a pointer, for a pointer to a value that is not a slice, and
  for a slice whose element type does not implement \<open>codec.ProtoMarshaler\<close>, neither
  itself nor in its pointer form. Where the element type or its pointer form implements
  it, \<open>assertDest\<close> returns the element type and an empty working slice that is not
  \<open>nil\<close>. Every error of \<open>assertDest\<close> is an ArgumentError.
\<close>

theorem assertDest_validation:
  "assertDest impl (NilInterface :: 'm ModelSlicePtr)
     = Inl (Wrap ErrArgument ''destination must not be nil'')
   \<and> (KindOf t \<noteq> Ptr \<longrightarrow>
        assertDest impl (NonPointer t :: 'm ModelSlicePtr)
          = Inl (Wrap ErrArgument ''destination must be a pointer to a slice''))
   \<and> (KindOf t \<noteq> Slice \<longrightarrow>
        assertDest impl (PointerTo t (s :: 'm list option))
          = Inl (Wrap ErrArgument ''destination must point to a slice''))
   \<and> (\<not> impl e \<and> \<not> impl (PtrT e) \<longrightarrow>
        assertDest impl (PointerTo (SliceT e) s) = Inl (Wrap ErrArgument ''unsupported type''))
   \<and> (impl e \<or> impl (PtrT e) \<longrightarrow>
        assertDest impl (PointerTo (SliceT e) s) = Inr (e, Some []))
   \<and> (\<forall>err. assertDest impl (dest :: 'm ModelSlicePtr) = Inl err \<longrightarrow> Is ErrArgument (Some err))"
  by (auto simp: assertDest_def Let_def split: if_splits)

theorem assertDest_validation_witness:
  "assertDest impl_GroupInfo (NilInterface :: nat ModelSlicePtr)
     = Inl (Wrap ErrArgument ''destination must not be nil'')
   \<and> assertDest impl_GroupInfo (NonPointer (SliceT (StructT ''GroupInfo'')) :: nat ModelSlicePtr)
     = Inl (Wrap ErrArgument ''destination must be a pointer to a slice'')
   \<and> assertDest impl_GroupInfo (PointerTo (StructT ''GroupInfo'') (Some [4::nat]))
     = Inl (Wrap ErrArgument ''destination must point to a slice'')
   \<and> assertDest impl_GroupInfo (PointerTo (SliceT (BasicT ''string'')) (None :: nat list option))
     = Inl (Wrap ErrArgument ''unsupported type'')
   \<and> assertDest impl_GroupInfo (PointerTo (SliceT (StructT ''GroupInfo'')) (Some [4::nat]))
     = Inr (StructT ''GroupInfo'', Some [])"
  using assertDest_validation [where impl = impl_GroupInfo and t = "SliceT (StructT ''GroupInfo'')"
          and e = "BasicT ''string''" and s = "None :: nat list option"]
        assertDest_validation [where impl = impl_GroupInfo and t = "StructT ''GroupInfo''"
          and e = "StructT ''GroupInfo''" and s = "Some [4::nat]"]
  by (simp add: impl_GroupInfo_def)

subsection \<open>The single-value iterator\<close>

lemma run_append:
  "run ln s (ds @ es) =
     (case run ln s ds of (rs, s1) \<Rightarrow> (case run ln s1 es of (rs', s2) \<Rightarrow> (rs @ rs', s2)))"
  by (induction ds arbitrary: s) (auto split: prod.splits)

lemma SingleValue_closed_run:
  "run (NewSingleValueIterator U rowID val) True (map Some ds)
     = (map (\<lambda>d. (None, Some ErrIteratorDone, Some d)) ds, True)"
  by (induction ds) (auto simp: NewSingleValueIterator_def)

lemma SingleValue_nil_run:
  "run (NewSingleValueIterator U rowID None) closed (map Some ds)
     = (map (\<lambda>d. (None, Some ErrIteratorDone, Some d)) ds, closed)"
  by (induction ds) (auto simp: NewSingleValueIterator_def)

text \<open>
  C4, as the code has it. For a single-value iterator built from a RowID and a buffer
  that is not \<open>nil\<close>, empty or not, the first \<open>LoadNext\<close> with a destination that is not
  \<open>nil\<close> decodes the buffer into the destination and returns that RowID with the
  decoder's error, and every later \<open>LoadNext\<close> with a destination that is not \<open>nil\<close>
  returns \<open>ErrIteratorDone\<close>. For one built from the \<open>nil\<close> buffer, the first such
  \<open>LoadNext\<close> and every later one return \<open>ErrIteratorDone\<close>. A \<open>nil\<close> destination gets an
  ArgumentError and leaves the iterator as it was.
\<close>

theorem SingleValueIterator_LoadNext:
  "(val \<noteq> None \<longrightarrow>
      NewSingleValueIterator U rowID val (Some d) False
        = ((rowID, fst (U d val), Some (snd (U d val))), True)
      \<and> run (NewSingleValueIterator U rowID val) True (map Some ds)
        = (map (\<lambda>d. (None, Some ErrIteratorDone, Some d)) ds, True))
   \<and> run (NewSingleValueIterator U rowID None) False (map Some ds)
        = (map (\<lambda>d. (None, Some ErrIteratorDone, Some d)) ds, False)
   \<and> NewSingleValueIterator U rowID val None closed
        = ((None, Some (Wrap ErrArgument ''destination object must not be nil''), None), closed)"
  by (simp add: SingleValue_closed_run SingleValue_nil_run)
     (simp add: NewSingleValueIterator_def split: prod.splits)

theorem SingleValueIterator_LoadNext_witness:
  "NewSingleValueIterator Unmarshal_nat (Some [7]) (Some [1, 2, 3]) (Some 0) False
     = ((Some [7], None, Some 3), True)
   \<and> run (NewSingleValueIterator Unmarshal_nat (Some [7]) (Some [1, 2, 3])) True [Some 0, Some 5]
     = ([(None, Some ErrIteratorDone, Some 0), (None, Some ErrIteratorDone, Some 5)], True)
   \<and> run (NewSingleValueIterator Unmarshal_nat (Some [7]) None) False [Some 0, Some 5]
     = ([(None, Some ErrIteratorDone, Some 0), (None, Some ErrIteratorDone, Some 5)], False)"
  using SingleValueIterator_LoadNext [where U = Unmarshal_nat and rowID = "Some [7]"
          and val = "Some [1, 2, 3]" and d = 0 and ds = "[0, 5]"]
  by (simp add: Unmarshal_nat_def)

text \<open>
  C4 as stated fails for an empty buffer that is not \<open>nil\<close>: the code tests
  \<open>val == nil\<close> only, so the first \<open>LoadNext\<close> decodes the empty buffer and returns the
  RowID, not \<open>ErrIteratorDone\<close>.
\<close>

theorem SingleValueIterator_empty_buffer_counterexample:
  "NewSingleValueIterator Unmarshal_nat (Some [7]) (Some []) (Some 5) False
     = ((Some [7], None, Some 0), True)
   \<and> \<not> Is ErrIteratorDone
         (errOf (fst (NewSingleValueIterator Unmarshal_nat (Some [7]) (Some []) (Some 5) False)))"
  by (simp add: NewSingleValueIterator_def Unmarshal_nat_def errOf_def)

subsection \<open>The limited iterator\<close>

lemma Limited_zero_run:
  "remainingCount i = 0 \<Longrightarrow>
   run (LimitedIterator_LoadNext pln) i es = (map (\<lambda>e. (None, Some ErrIteratorDone, e)) es, i)"
  by (induction es) (auto simp: LimitedIterator_LoadNext_def)

lemma Limited_step:
  "n \<noteq> 0 \<Longrightarrow> pln d p = (r, p1) \<Longrightarrow>
   LimitedIterator_LoadNext pln d \<lparr>remainingCount = n, parentIterator = p\<rparr>
     = (r, \<lparr>remainingCount = n - 1, parentIterator = p1\<rparr>)"
  by (simp add: LimitedIterator_LoadNext_def)

lemma Limited_run_prefix:
  "run pln p ds = (rs, p') \<Longrightarrow> int (length ds) \<le> n \<Longrightarrow>
   run (LimitedIterator_LoadNext pln) \<lparr>remainingCount = n, parentIterator = p\<rparr> ds
     = (rs, \<lparr>remainingCount = n - int (length ds), parentIterator = p'\<rparr>)"
proof (induction ds arbitrary: p rs n)
  case Nil
  then show ?case by simp
next
  case (Cons d ds)
  obtain r p1 where step: "pln d p = (r, p1)" by (cases "pln d p")
  obtain rs1 where rest: "run pln p1 ds = (rs1, p')" and rs: "rs = r # rs1"
    using Cons.prems(1) step by (auto split: prod.splits)
  have "int (length ds) \<le> n - 1" using Cons.prems(2) by simp
  from Cons.IH [OF rest this] have
    "run (LimitedIterator_LoadNext pln) \<lparr>remainingCount = n - 1, parentIterator = p1\<rparr> ds
       = (rs1, \<lparr>remainingCount = n - 1 - int (length ds), parentIterator = p'\<rparr>)" .
  moreover have "n \<noteq> 0" using Cons.prems(2) by auto
  ultimately show ?case
    using step rs by (simp add: Limited_step algebra_simps)
qed

text \<open>
  C3, as the code has it. A \<open>LimitedIterator\<close> whose count is 0 returns
  \<open>ErrIteratorDone\<close> on \<open>LoadNext\<close> and leaves the parent as it was. For \<open>max \<ge> 0\<close> and a
  parent whose next \<open>max\<close> calls of \<open>LoadNext\<close> (with the destinations \<open>ds\<close>) return
  records: \<open>LimitIterator\<close> returns the iterator; its first \<open>max\<close> calls return the
  parent's \<open>max\<close> records, and every later call (with the destinations \<open>es\<close>) returns
  \<open>ErrIteratorDone\<close>, with the parent left in the state it had after its \<open>max\<close> records;
  after \<open>k \<le> max\<close> of these calls the remaining count is \<open>max - k\<close>. In general a call of
  \<open>LoadNext\<close> with a count that is not 0 takes one off the count and returns what the
  parent returns, an error as well as a record. \<open>Close\<close> returns what the parent's
  \<open>Close\<close> returns and closes the parent.
\<close>

theorem LimitedIterator_counts_calls:
  "(LimitedIterator_LoadNext pln d \<lparr>remainingCount = 0, parentIterator = p\<rparr>
      = ((None, Some ErrIteratorDone, d), \<lparr>remainingCount = 0, parentIterator = p\<rparr>))
   \<and> (run pln p ds = (rs, p') \<and> (\<forall>r \<in> set rs. errOf r = None) \<and> int (length ds) = maxn \<longrightarrow>
        LimitIterator (Some p) maxn = Returns \<lparr>remainingCount = maxn, parentIterator = p\<rparr>
        \<and> run (LimitedIterator_LoadNext pln) \<lparr>remainingCount = maxn, parentIterator = p\<rparr> (ds @ es)
            = (rs @ map (\<lambda>e. (None, Some ErrIteratorDone, e)) es,
               \<lparr>remainingCount = 0, parentIterator = p'\<rparr>)
        \<and> (\<forall>k \<le> length ds.
              remainingCount (snd (run (LimitedIterator_LoadNext pln)
                 \<lparr>remainingCount = maxn, parentIterator = p\<rparr> (take k ds))) = maxn - int k))
   \<and> (remainingCount i \<noteq> 0 \<longrightarrow>
        LimitedIterator_LoadNext pln d i
          = (fst (pln d (parentIterator i)),
             \<lparr>remainingCount = remainingCount i - 1, parentIterator = snd (pln d (parentIterator i))\<rparr>))
   \<and> LimitedIterator_Close pcl i
        = (fst (pcl (parentIterator i)), i\<lparr>parentIterator := snd (pcl (parentIterator i))\<rparr>)"
proof (intro conjI impI allI)
  show "LimitedIterator_LoadNext pln d \<lparr>remainingCount = 0, parentIterator = p\<rparr>
      = ((None, Some ErrIteratorDone, d), \<lparr>remainingCount = 0, parentIterator = p\<rparr>)"
    by (simp add: LimitedIterator_LoadNext_def)
next
  assume h: "run pln p ds = (rs, p') \<and> (\<forall>r \<in> set rs. errOf r = None) \<and> int (length ds) = maxn"
  then show "LimitIterator (Some p) maxn = Returns \<lparr>remainingCount = maxn, parentIterator = p\<rparr>"
    by (auto simp: LimitIterator_def)
next
  assume h: "run pln p ds = (rs, p') \<and> (\<forall>r \<in> set rs. errOf r = None) \<and> int (length ds) = maxn"
  then have "run (LimitedIterator_LoadNext pln) \<lparr>remainingCount = maxn, parentIterator = p\<rparr> ds
     = (rs, \<lparr>remainingCount = 0, parentIterator = p'\<rparr>)"
    using Limited_run_prefix [of pln p ds rs p' maxn] by simp
  then show "run (LimitedIterator_LoadNext pln) \<lparr>remainingCount = maxn, parentIterator = p\<rparr> (ds @ es)
            = (rs @ map (\<lambda>e. (None, Some ErrIteratorDone, e)) es,
               \<lparr>remainingCount = 0, parentIterator = p'\<rparr>)"
    by (simp add: run_append Limited_zero_run)
next
  fix k
  assume h: "run pln p ds = (rs, p') \<and> (\<forall>r \<in> set rs. errOf r = None) \<and> int (length ds) = maxn"
    and k: "k \<le> length ds"
  obtain rs1 p1 where r1: "run pln p (take k ds) = (rs1, p1)" by (cases "run pln p (take k ds)")
  have "int (length (take k ds)) \<le> maxn" using h k by auto
  from Limited_run_prefix [OF r1 this] k
  show "remainingCount (snd (run (LimitedIterator_LoadNext pln)
                 \<lparr>remainingCount = maxn, parentIterator = p\<rparr> (take k ds))) = maxn - int k"
    by (simp add: min_def)
next
  assume "remainingCount i \<noteq> 0"
  then show "LimitedIterator_LoadNext pln d i
          = (fst (pln d (parentIterator i)),
             \<lparr>remainingCount = remainingCount i - 1, parentIterator = snd (pln d (parentIterator i))\<rparr>)"
    by (cases i) (simp add: LimitedIterator_LoadNext_def split: prod.splits)
next
  show "LimitedIterator_Close pcl i
        = (fst (pcl (parentIterator i)), i\<lparr>parentIterator := snd (pcl (parentIterator i))\<rparr>)"
    by (simp add: LimitedIterator_Close_def split: prod.splits)
qed

theorem LimitedIterator_counts_calls_witness:
  "run Replay_LoadNext (three_rows, False) [Some 0, Some 0]
     = (take 2 three_rows, (drop 2 three_rows, False))
   \<and> LimitIterator (Some (three_rows, False)) 2
     = Returns \<lparr>remainingCount = 2, parentIterator = (three_rows, False)\<rparr>
   \<and> run (LimitedIterator_LoadNext Replay_LoadNext)
       \<lparr>remainingCount = 2, parentIterator = (three_rows, False)\<rparr> [Some 0, Some 0, Some 0, None]
     = (take 2 three_rows @ [(None, Some ErrIteratorDone, Some 0), (None, Some ErrIteratorDone, None)],
        \<lparr>remainingCount = 0, parentIterator = (drop 2 three_rows, False)\<rparr>)
   \<and> LimitedIterator_LoadNext Replay_LoadNext (Some 0)
       \<lparr>remainingCount = 2, parentIterator = (error_then_row, False)\<rparr>
     = ((Some [4], Some (Errorf ''bad wire type''), Some 0),
        \<lparr>remainingCount = 1, parentIterator = (tl error_then_row, False)\<rparr>)"
proof -
  have h: "run Replay_LoadNext (three_rows, False) [Some 0, Some 0]
             = (take 2 three_rows, (drop 2 three_rows, False))
           \<and> (\<forall>r \<in> set (take 2 three_rows). errOf r = None)
           \<and> int (length [Some (0::nat), Some 0]) = 2"
    by (simp add: Replay_LoadNext_def three_rows_def)
  note c = LimitedIterator_counts_calls [where pln = Replay_LoadNext and p = "(three_rows, False)"
         and maxn = 2 and ds = "[Some 0, Some 0]" and es = "[Some 0, None]"
         and p' = "(drop 2 three_rows, False)" and rs = "take 2 three_rows",
         THEN conjunct2, THEN conjunct1, THEN mp, OF h]
  have n: "remainingCount \<lparr>remainingCount = 2, parentIterator = (error_then_row, False)\<rparr> \<noteq> 0"
    by simp
  note d = LimitedIterator_counts_calls [where pln = Replay_LoadNext and d = "Some 0",
         THEN conjunct2, THEN conjunct2, THEN conjunct1, THEN mp, OF n]
  from c [THEN conjunct1] c [THEN conjunct2, THEN conjunct1] h
  have "run Replay_LoadNext (three_rows, False) [Some 0, Some 0]
     = (take 2 three_rows, (drop 2 three_rows, False))
   \<and> LimitIterator (Some (three_rows, False)) 2
     = Returns \<lparr>remainingCount = 2, parentIterator = (three_rows, False)\<rparr>
   \<and> run (LimitedIterator_LoadNext Replay_LoadNext)
       \<lparr>remainingCount = 2, parentIterator = (three_rows, False)\<rparr> [Some 0, Some 0, Some 0, None]
     = (take 2 three_rows @ [(None, Some ErrIteratorDone, Some 0), (None, Some ErrIteratorDone, None)],
        \<lparr>remainingCount = 0, parentIterator = (drop 2 three_rows, False)\<rparr>)"
    by (simp del: run.simps)
  moreover from d have "LimitedIterator_LoadNext Replay_LoadNext (Some 0)
       \<lparr>remainingCount = 2, parentIterator = (error_then_row, False)\<rparr>
     = ((Some [4], Some (Errorf ''bad wire type''), Some 0),
        \<lparr>remainingCount = 1, parentIterator = (tl error_then_row, False)\<rparr>)"
    by (simp add: Replay_LoadNext_def error_then_row_def)
  ultimately show ?thesis by blast
qed

text \<open>
  C3 as stated fails where a call fails: the count is taken down before the parent is
  called. With \<open>max = 1\<close> over a parent whose first row fails to decode and whose second
  row is good, the one call allowed returns the error and the next returns
  \<open>ErrIteratorDone\<close>, with the good row left in the parent. The same happens over a
  single-value iterator when the first call has a \<open>nil\<close> destination.
\<close>

theorem LimitedIterator_failed_call_counterexample:
  "run (LimitedIterator_LoadNext Replay_LoadNext)
       \<lparr>remainingCount = 1, parentIterator = (error_then_row, False)\<rparr> [Some 0, Some 0]
     = ([(Some [4], Some (Errorf ''bad wire type''), Some 0), (None, Some ErrIteratorDone, Some 0)],
        \<lparr>remainingCount = 0, parentIterator = ([(Some [1], None, Some 10)], False)\<rparr>)
   \<and> run (LimitedIterator_LoadNext (NewSingleValueIterator Unmarshal_nat (Some [7]) (Some [1, 2, 3])))
       \<lparr>remainingCount = 1, parentIterator = False\<rparr> [None, Some 0]
     = ([(None, Some (Wrap ErrArgument ''destination object must not be nil''), None),
         (None, Some ErrIteratorDone, Some 0)],
        \<lparr>remainingCount = 0, parentIterator = False\<rparr>)"
  by (simp add: LimitedIterator_LoadNext_def Replay_LoadNext_def error_then_row_def
        NewSingleValueIterator_def)

subsection \<open>Exhaustion is final\<close>

lemma Limited_done_forever:
  "(\<And>ds'. set ds' \<subseteq> D \<Longrightarrow> all_done (fst (run pln p ds'))) \<Longrightarrow> set ds \<subseteq> D \<Longrightarrow>
   all_done (fst (run (LimitedIterator_LoadNext pln) \<lparr>remainingCount = n, parentIterator = p\<rparr> ds))"
proof (induction ds arbitrary: n p)
  case Nil
  then show ?case by (simp add: all_done_def)
next
  case (Cons d ds)
  show ?case
  proof (cases "n = 0")
    case True
    have "run (LimitedIterator_LoadNext pln) \<lparr>remainingCount = n, parentIterator = p\<rparr> (d # ds)
            = (map (\<lambda>e. (None, Some ErrIteratorDone, e)) (d # ds),
               \<lparr>remainingCount = n, parentIterator = p\<rparr>)"
      using True by (intro Limited_zero_run) simp
    then show ?thesis
      unfolding all_done_def by (auto simp: errOf_def)
  next
    case False
    obtain r p1 where step: "pln d p = (r, p1)" by (cases "pln d p")
    have "all_done (fst (run pln p [d]))" using Cons.prems(1) [of "[d]"] Cons.prems(2) by simp
    then have r: "Is ErrIteratorDone (errOf r)" using step by (simp add: all_done_def)
    have later: "all_done (fst (run pln p1 ds'))" if "set ds' \<subseteq> D" for ds'
    proof -
      have "all_done (fst (run pln p (d # ds')))"
        using Cons.prems(1) [of "d # ds'"] Cons.prems(2) that by simp
      then show ?thesis using step by (simp add: all_done_def split: prod.splits)
    qed
    have "all_done (fst (run (LimitedIterator_LoadNext pln)
            \<lparr>remainingCount = n - 1, parentIterator = p1\<rparr> ds))"
      using Cons.IH [OF later] Cons.prems(2) by simp
    then show ?thesis
      using False step r by (simp add: Limited_step all_done_def split: prod.splits)
  qed
qed

text \<open>
  C9, as the code has it. Once \<open>LoadNext\<close> of a single-value iterator has reported
  \<open>ErrIteratorDone\<close>, every later \<open>LoadNext\<close> with a destination that is not \<open>nil\<close> reports
  it too. For a set \<open>D\<close> of destinations (all of them, or those that are not \<open>nil\<close>):
  if the parent, once it has reported \<open>ErrIteratorDone\<close> to a call with a destination
  of \<open>D\<close>, reports it to every later call with a destination of \<open>D\<close>, then so does the
  \<open>LimitedIterator\<close> over that parent.
\<close>

theorem idempotent_exhaustion:
  "(Is ErrIteratorDone (errOf (fst (NewSingleValueIterator U rowID val (Some d) closed))) \<longrightarrow>
      all_done (fst (run (NewSingleValueIterator U rowID val)
                       (snd (NewSingleValueIterator U rowID val (Some d) closed)) (map Some ds))))
   \<and> ((\<forall>e s es. e \<in> D \<and> set es \<subseteq> D \<and> Is ErrIteratorDone (errOf (fst (pln e s))) \<longrightarrow>
           all_done (fst (run pln (snd (pln e s)) es))) \<longrightarrow>
        e \<in> D \<and> set es \<subseteq> D \<and> Is ErrIteratorDone (errOf (fst (LimitedIterator_LoadNext pln e i))) \<longrightarrow>
        all_done (fst (run (LimitedIterator_LoadNext pln) (snd (LimitedIterator_LoadNext pln e i)) es)))"
proof (intro conjI impI)
  assume h: "Is ErrIteratorDone (errOf (fst (NewSingleValueIterator U rowID val (Some d) closed)))"
  show "all_done (fst (run (NewSingleValueIterator U rowID val)
                       (snd (NewSingleValueIterator U rowID val (Some d) closed)) (map Some ds)))"
  proof (cases "closed \<or> val = None")
    case True
    then have "snd (NewSingleValueIterator U rowID val (Some d) closed) = closed"
      by (simp add: NewSingleValueIterator_def)
    then show ?thesis
      using True by (auto simp: SingleValue_closed_run SingleValue_nil_run all_done_def errOf_def)
  next
    case False
    then have "snd (NewSingleValueIterator U rowID val (Some d) closed) = True"
      by (simp add: NewSingleValueIterator_def split: prod.splits)
    then show ?thesis
      by (simp add: SingleValue_closed_run all_done_def errOf_def)
  qed
next
  assume parent: "\<forall>e s es. e \<in> D \<and> set es \<subseteq> D \<and> Is ErrIteratorDone (errOf (fst (pln e s))) \<longrightarrow>
           all_done (fst (run pln (snd (pln e s)) es))"
    and h: "e \<in> D \<and> set es \<subseteq> D \<and> Is ErrIteratorDone (errOf (fst (LimitedIterator_LoadNext pln e i)))"
  obtain n p where i: "i = \<lparr>remainingCount = n, parentIterator = p\<rparr>" by (cases i) simp
  show "all_done (fst (run (LimitedIterator_LoadNext pln) (snd (LimitedIterator_LoadNext pln e i)) es))"
  proof (cases "n = 0")
    case True
    then show ?thesis
      using i by (simp add: LimitedIterator_LoadNext_def Limited_zero_run all_done_def errOf_def)
  next
    case False
    obtain r p1 where step: "pln e p = (r, p1)" by (cases "pln e p")
    have r: "Is ErrIteratorDone (errOf (fst (pln e p)))"
      using h i False step by (simp add: Limited_step)
    have "all_done (fst (run pln p1 es'))" if "set es' \<subseteq> D" for es'
      using parent h that r step by (metis snd_conv)
    from Limited_done_forever [of D pln p1 es "n - 1", OF this]
    show ?thesis using h i False step by (simp add: Limited_step)
  qed
qed

theorem idempotent_exhaustion_witness:
  "Is ErrIteratorDone (errOf (fst (LimitedIterator_LoadNext
       (NewSingleValueIterator Unmarshal_nat (Some [7]) None) (Some 0)
       \<lparr>remainingCount = 3, parentIterator = False\<rparr>)))
   \<and> all_done (fst (run (LimitedIterator_LoadNext (NewSingleValueIterator Unmarshal_nat (Some [7]) None))
        (snd (LimitedIterator_LoadNext (NewSingleValueIterator Unmarshal_nat (Some [7]) None) (Some 0)
               \<lparr>remainingCount = 3, parentIterator = False\<rparr>))
        [Some 1, Some 2]))"
proof -
  let ?sv = "NewSingleValueIterator Unmarshal_nat (Some [7]) None"
  let ?i = "\<lparr>remainingCount = 3, parentIterator = False\<rparr>"
  have parent: "\<forall>e s es. e \<in> range Some \<and> set es \<subseteq> range Some
                  \<and> Is ErrIteratorDone (errOf (fst (?sv e s))) \<longrightarrow>
                all_done (fst (run ?sv (snd (?sv e s)) es))"
  proof (intro allI impI)
    fix e :: "nat option" and s :: bool and es :: "nat option list"
    assume a: "e \<in> range Some \<and> set es \<subseteq> range Some
                  \<and> Is ErrIteratorDone (errOf (fst (?sv e s)))"
    then obtain d where e: "e = Some d" by auto
    from a have "\<forall>y \<in> set es. \<exists>x. y = Some x" by auto
    then obtain ds :: "nat list" where es: "es = map Some ds" unfolding ex_map_conv [symmetric] by blast
    from idempotent_exhaustion [where U = Unmarshal_nat and rowID = "Some [7]" and val = None
           and d = d and closed = s and ds = ds, THEN conjunct1] a e es
    show "all_done (fst (run ?sv (snd (?sv e s)) es))" by simp
  qed
  have h: "Some 0 \<in> range Some \<and> set [Some 1, Some (2::nat)] \<subseteq> range Some
           \<and> Is ErrIteratorDone (errOf (fst (LimitedIterator_LoadNext ?sv (Some 0) ?i)))"
    by (simp add: LimitedIterator_LoadNext_def NewSingleValueIterator_def errOf_def)
  from idempotent_exhaustion [where pln = ?sv and D = "range Some" and e = "Some 0" and i = ?i
         and es = "[Some 1, Some 2]", THEN conjunct2, THEN mp, OF parent, THEN mp, OF h] h
  show ?thesis by simp
qed

text \<open>
  C9 as stated fails for calls with a \<open>nil\<close> destination: the single-value iterator
  tests the destination first, so after it has reported \<open>ErrIteratorDone\<close> a call with
  a \<open>nil\<close> destination gets an ArgumentError.
\<close>

theorem idempotent_exhaustion_nil_destination_counterexample:
  "Is ErrIteratorDone
     (errOf (fst (NewSingleValueIterator Unmarshal_nat (Some [7]) None (Some 0) False)))
   \<and> \<not> Is ErrIteratorDone
     (errOf (fst (NewSingleValueIterator Unmarshal_nat (Some [7]) None None
        (snd (NewSingleValueIterator Unmarshal_nat (Some [7]) None (Some 0) False)))))"
  by (simp add: NewSingleValueIterator_def errOf_def)

subsection \<open>The loops of ReadAll and Paginate\<close>

lemma unat_succ64:
  "unat (count :: 64 word) + 1 < 2 ^ 64 \<Longrightarrow> unat (count + 1) = unat count + 1"
  using unat_add_lem [of count 1] by simp

lemma foldl_Append_Some:
  "foldl Append (Some xs) ys = Some (xs @ ys)"
  by (induction ys arbitrary: xs) auto

lemma foldl_Append_None:
  "foldl Append None ys = (if ys = [] then None else Some ys)"
  by (cases ys) (auto simp: foldl_Append_Some)

lemma ReadAll_loop_emits:
  "emits ln mdl s rs s1 \<Longrightarrow> \<forall>r \<in> set rs. errOf r = None \<Longrightarrow> exhausted ln mdl s1 \<Longrightarrow>
   ReadAll_loop ln True mdl s tmp ids dst
     = Some (Returns (foldl Append ids (map keyOf rs)), snd (ln (Some mdl) s1),
             foldl Append tmp (map (valOf mdl) rs))"
proof (induction rs arbitrary: s tmp ids)
  case Nil
  obtain binKey err d it' where step: "ln (Some mdl) s = ((binKey, err, d), it')"
    by (cases "ln (Some mdl) s") auto
  from Nil step have "Is ErrIteratorDone err" by (simp add: exhausted_def)
  then show ?case
    using Nil step by (subst ReadAll_loop.simps) (auto split: option.splits)
next
  case (Cons r rs)
  obtain binKey err d it' where step: "ln (Some mdl) s = ((binKey, err, d), it')"
    by (cases "ln (Some mdl) s") auto
  from Cons.prems step have r: "r = (binKey, None, d)" and err: "err = None"
    and rest: "emits ln mdl it' rs s1"
    by auto
  have "ReadAll_loop ln True mdl s tmp ids dst
          = ReadAll_loop ln True mdl it' (Append tmp (loaded mdl d)) (Append ids binKey) dst"
    using step err by (subst ReadAll_loop.simps) simp
  also have "\<dots> = Some (Returns (foldl Append (Append ids binKey) (map keyOf rs)),
                          snd (ln (Some mdl) s1),
                          foldl Append (Append tmp (loaded mdl d)) (map (valOf mdl) rs))"
    using Cons.IH [OF rest] Cons.prems by simp
  finally show ?case using r by simp
qed

text \<open>One round of the loop of \<open>Paginate\<close>, for a result that is not \<open>ErrIteratorDone\<close>.\<close>

lemma Paginate_loop_round:
  "ln (Some mdl) s = ((binKey, err, d), it') \<Longrightarrow> \<not> Is ErrIteratorDone err \<Longrightarrow>
   Paginate_loop ln True mdl offset endc ct key s tmp count nk dst =
     (if count + 1 \<le> offset
        then Paginate_loop ln True mdl offset endc ct key it' tmp (count + 1) nk dst
      else if err \<noteq> None then Some (err, nk, count + 1, it', dst)
      else if count + 1 \<le> endc
        then Paginate_loop ln True mdl offset endc ct key it' (Append tmp (loaded mdl d)) (count + 1) nk dst
      else if count + 1 = endc + 1
        then (if \<not> ct \<or> len key \<noteq> 0 then Some (None, binKey, count + 1, it', tmp)
              else Paginate_loop ln True mdl offset endc ct key it' tmp (count + 1) binKey tmp)
      else Paginate_loop ln True mdl offset endc ct key it' tmp (count + 1) nk dst)"
  by (subst Paginate_loop.simps) simp

lemma Paginate_loop_done:
  "exhausted ln mdl s \<Longrightarrow>
   Paginate_loop ln True mdl offset endc ct key s tmp count nk dst
     = Some (None, nk, count, snd (ln (Some mdl) s), tmp)"
  by (subst Paginate_loop.simps) (auto simp: exhausted_def split: prod.splits)

lemma Paginate_loop_result:
  assumes "emits ln mdl s rs s1" and "exhausted ln mdl s1"
    and "unat count + length rs < 2 ^ 64"
    and "Paginate_loop ln True mdl offset endc ct key s tmp count nk dst = Some (None, nk', c', s', d')"
  shows "nk' = (if unat count \<le> unat endc \<and> unat offset \<le> unat endc
                   \<and> unat endc - unat count < length rs
                then keyOf (rs ! (unat endc - unat count)) else nk)
       \<and> (ct \<and> len key = 0 \<longrightarrow> c' = count + of_nat (length rs))
       \<and> d' = foldl Append tmp (map (valOf mdl)
                 (take (unat endc - max (unat count) (unat offset)) (drop (unat offset - unat count) rs)))"
  using assms
proof (induction rs arbitrary: s tmp count nk dst)
  case Nil
  then show ?case by (simp add: Paginate_loop_done)
next
  case (Cons r rs)
  obtain binKey err d it' where step: "ln (Some mdl) s = ((binKey, err, d), it')"
    by (cases "ln (Some mdl) s") auto
  from Cons.prems(1) step have r: "r = (binKey, err, d)" and nd: "\<not> Is ErrIteratorDone err"
    and rest: "emits ln mdl it' rs s1"
    by auto
  have c1: "unat (count + 1) = Suc (unat count)"
    using Cons.prems(3) unat_succ64 [of count] by simp
  have bound: "unat (count + 1) + length rs < 2 ^ 64"
    using Cons.prems(3) c1 by simp
  have le_off: "count + 1 \<le> offset \<longleftrightarrow> Suc (unat count) \<le> unat offset"
    by (simp add: word_le_nat_alt c1)
  have le_end: "count + 1 \<le> endc \<longleftrightarrow> Suc (unat count) \<le> unat endc"
    by (simp add: word_le_nat_alt c1)
  have eq_end: "count = endc \<longleftrightarrow> unat count = unat endc"
    by (rule word_unat_eq_iff)
  have len: "count + of_nat (length (r # rs)) = (count + 1) + of_nat (length rs)"
    by simp
  note round = Paginate_loop_round [where ln = ln and mdl = mdl and s = s and offset = offset
      and endc = endc and ct = ct and key = key and tmp = tmp and count = count and nk = nk
      and dst = dst, OF step nd]
  note IH = Cons.IH [OF rest Cons.prems(2) bound]
  consider (skip) "Suc (unat count) \<le> unat offset"
    | (fail) "\<not> Suc (unat count) \<le> unat offset" "err \<noteq> None"
    | (app) "\<not> Suc (unat count) \<le> unat offset" "err = None" "Suc (unat count) \<le> unat endc"
    | (commit) "\<not> Suc (unat count) \<le> unat offset" "err = None" "\<not> Suc (unat count) \<le> unat endc"
        "unat count = unat endc"
    | (beyond) "\<not> Suc (unat count) \<le> unat offset" "err = None" "\<not> Suc (unat count) \<le> unat endc"
        "unat count \<noteq> unat endc"
    by blast
  then show ?case
  proof cases
    case skip
    have m: "max (Suc (unat count)) (unat offset) = unat offset"
            "max (unat count) (unat offset) = unat offset"
            "unat offset - unat count = Suc (unat offset - Suc (unat count))"
      using skip by auto
    have k: "unat count \<le> unat endc \<and> unat offset \<le> unat endc
               \<and> unat endc - unat count < length (r # rs)
             \<longleftrightarrow> Suc (unat count) \<le> unat endc \<and> unat offset \<le> unat endc
               \<and> unat endc - Suc (unat count) < length rs"
      using skip by auto
    have n: "Suc (unat count) \<le> unat endc \<Longrightarrow>
             (r # rs) ! (unat endc - unat count) = rs ! (unat endc - Suc (unat count))"
      by (simp add: nth_Cons' Suc_diff_le)
    from skip have "Paginate_loop ln True mdl offset endc ct key it' tmp (count + 1) nk dst
                 = Some (None, nk', c', s', d')"
      using round Cons.prems(4) by (simp add: le_off)
    note ih = IH [OF this, unfolded c1 m]
    show ?thesis
      unfolding len k m using ih n by (simp del: of_nat_Suc)
  next
    case fail
    then show ?thesis using round Cons.prems(4) by (simp add: le_off)
  next
    case app
    have m: "max (Suc (unat count)) (unat offset) = Suc (unat count)"
            "max (unat count) (unat offset) = unat count"
            "unat offset - unat count = 0" "unat offset - Suc (unat count) = 0"
            "unat endc - unat count = Suc (unat endc - Suc (unat count))"
      using app by auto
    have k: "unat count \<le> unat endc \<and> unat offset \<le> unat endc
               \<and> Suc (unat endc - Suc (unat count)) < length (r # rs)
             \<longleftrightarrow> Suc (unat count) \<le> unat endc \<and> unat offset \<le> unat endc
               \<and> unat endc - Suc (unat count) < length rs"
      using app by auto
    from app have "Paginate_loop ln True mdl offset endc ct key it' (Append tmp (loaded mdl d))
                     (count + 1) nk dst = Some (None, nk', c', s', d')"
      using round Cons.prems(4) by (simp add: le_off le_end)
    note ih = IH [OF this, unfolded c1 m]
    show ?thesis
      unfolding len m k using ih r by (simp del: of_nat_Suc)
  next
    case commit
    have m: "max (Suc (unat count)) (unat offset) = Suc (unat count)"
            "max (unat count) (unat offset) = unat count"
            "unat endc - unat count = 0" "unat endc - Suc (unat count) = 0"
      using commit by auto
    have k: "unat count \<le> unat endc" "unat offset \<le> unat endc" "\<not> Suc (unat count) \<le> unat endc"
      using commit by auto
    show ?thesis
    proof (cases "\<not> ct \<or> len key \<noteq> 0")
      case True
      then have "Some (None, binKey, count + 1, it', tmp) = Some (None, nk', c', s', d')"
        using round Cons.prems(4) commit by (simp add: le_off le_end eq_end)
      then show ?thesis unfolding m using r True k by auto
    next
      case False
      then have "Paginate_loop ln True mdl offset endc ct key it' tmp (count + 1) binKey tmp
                 = Some (None, nk', c', s', d')"
        using round Cons.prems(4) commit by (simp add: le_off le_end eq_end)
      note ih = IH [OF this, unfolded c1 m]
      show ?thesis
        unfolding len m using ih r k by (simp del: of_nat_Suc)
    qed
  next
    case beyond
    have m: "max (Suc (unat count)) (unat offset) = Suc (unat count)"
            "max (unat count) (unat offset) = unat count"
            "unat endc - unat count = 0" "unat endc - Suc (unat count) = 0"
      using beyond by auto
    have k: "\<not> unat count \<le> unat endc" "\<not> Suc (unat count) \<le> unat endc"
      using beyond by auto
    from beyond have "Paginate_loop ln True mdl offset endc ct key it' tmp (count + 1) nk dst
                 = Some (None, nk', c', s', d')"
      using round Cons.prems(4) by (simp add: le_off le_end eq_end)
    note ih = IH [OF this, unfolded c1 m]
    show ?thesis
      unfolding len m using ih k by (simp del: of_nat_Suc)
  qed
qed

lemma Paginate_loop_succeeds:
  assumes "emits ln mdl s rs s1" and "exhausted ln mdl s1"
    and "unat count + length rs < 2 ^ 64"
    and "\<forall>i < length rs. unat offset \<le> unat count + i \<longrightarrow> errOf (rs ! i) = None"
  shows "\<exists>nk' c' s' d'.
           Paginate_loop ln True mdl offset endc ct key s tmp count nk dst = Some (None, nk', c', s', d')"
  using assms
proof (induction rs arbitrary: s tmp count nk dst)
  case Nil
  then show ?case by (simp add: Paginate_loop_done)
next
  case (Cons r rs)
  obtain binKey err d it' where step: "ln (Some mdl) s = ((binKey, err, d), it')"
    by (cases "ln (Some mdl) s") auto
  from Cons.prems(1) step have r: "r = (binKey, err, d)" and nd: "\<not> Is ErrIteratorDone err"
    and rest: "emits ln mdl it' rs s1"
    by auto
  have c1: "unat (count + 1) = Suc (unat count)"
    using Cons.prems(3) unat_succ64 [of count] by simp
  have bound: "unat (count + 1) + length rs < 2 ^ 64"
    using Cons.prems(3) c1 by simp
  have le_off: "count + 1 \<le> offset \<longleftrightarrow> Suc (unat count) \<le> unat offset"
    by (simp add: word_le_nat_alt c1)
  have later: "\<forall>i < length rs. unat offset \<le> unat (count + 1) + i \<longrightarrow> errOf (rs ! i) = None"
  proof (intro allI impI)
    fix i assume "i < length rs" "unat offset \<le> unat (count + 1) + i"
    then have "Suc i < length (r # rs)" "unat offset \<le> unat count + Suc i"
      using c1 by auto
    with Cons.prems(4) have "errOf ((r # rs) ! Suc i) = None" by blast
    then show "errOf (rs ! i) = None" by simp
  qed
  have first: "\<not> Suc (unat count) \<le> unat offset \<Longrightarrow> err = None"
    using Cons.prems(4) [rule_format, of 0] r by simp
  note round = Paginate_loop_round [where ln = ln and mdl = mdl and s = s and offset = offset
      and endc = endc and ct = ct and key = key and tmp = tmp and count = count and nk = nk
      and dst = dst, OF step nd]
  note IH = Cons.IH [OF rest Cons.prems(2) bound later]
  show ?case
    unfolding round using first IH by (auto simp: le_off)
qed

lemma wrap_window:
  fixes offset limit :: "64 word"
  assumes "n < 2 ^ 64"
  shows "(unat offset \<le> unat (offset + limit) \<and> unat (offset + limit) < n)
           \<longleftrightarrow> unat offset + unat limit < n"
    and "unat offset + unat limit < n \<Longrightarrow> unat (offset + limit) = unat offset + unat limit"
proof -
  have l: "unat limit < 2 ^ 64" using unsigned_less [of limit] by simp
  have s: "unat (offset + limit) = (unat offset + unat limit) mod 2 ^ 64"
    by (simp add: unat_word_ariths)
  show "unat offset + unat limit < n \<Longrightarrow> unat (offset + limit) = unat offset + unat limit"
    using assms s by simp
  show "(unat offset \<le> unat (offset + limit) \<and> unat (offset + limit) < n)
           \<longleftrightarrow> unat offset + unat limit < n"
  proof (cases "unat offset + unat limit < 2 ^ 64")
    case True
    then show ?thesis using s by simp
  next
    case False
    have o: "unat offset < 2 ^ 64" using unsigned_less [of offset] by simp
    have "(unat offset + unat limit) mod 2 ^ 64 = (unat offset + unat limit - 2 ^ 64) mod 2 ^ 64"
      using False by (simp add: le_mod_geq)
    also have "\<dots> = unat offset + unat limit - 2 ^ 64"
      using l o by (intro mod_less) linarith
    finally have w: "unat (offset + limit) = unat offset + unat limit - 2 ^ 64"
      using s by simp
    have "unat (offset + limit) < unat offset" using w l False by linarith
    then show ?thesis using False assms by linarith
  qed
qed

lemma assertDest_Inr:
  "assertDest impl dest = Inr (e, tmp) \<Longrightarrow>
   tmp = Some [] \<and> (\<exists>old. dest = PointerTo (SliceT e) old)"
  by (cases dest; cases "PointeeType dest")
     (auto simp: assertDest_def Let_def split: if_splits)

text \<open>Paginate once the request, the iterator and the destination have passed the checks.\<close>

lemma Paginate_checked:
  assumes "assertDest impl dest = Inr (e, tmp)"
    and "\<not> (Offset req > 0 \<and> Key req \<noteq> None)"
  shows "Paginate impl New ln cl (Some s) (Some req) dest =
     (case Paginate_loop ln (impl (modelType e)) (modelZero New e) (Offset req)
             (Offset req + (if Limit req = 0 then 100 else Limit req))
             (if Limit req = 0 then True else CountTotal req) (Key req) s (Some []) 0 None (deref dest) of
        None \<Rightarrow> None
      | Some (err, nextKey, count, s', destRef) \<Rightarrow>
          (case err of
             Some e \<Rightarrow> Some (Fails e, Some (snd (cl s')), Set_dest dest destRef)
           | None \<Rightarrow>
               Some (Returns \<lparr>NextKey = nextKey,
                       Total = (if (if Limit req = 0 then True else CountTotal req) \<and> len (Key req) = 0
                                then count else 0)\<rparr>,
                     Some (snd (cl s')), Set_dest dest destRef)))"
  using assms assertDest_Inr [OF assms(1)]
  by (auto simp: Paginate_def Let_def)

lemma Paginate_nil_request:
  "Paginate impl New ln cl it None dest
     = Paginate impl New ln cl it (Some \<lparr>Key = None, Offset = 0, Limit = 0, CountTotal = False\<rparr>) dest"
  by (simp add: Paginate_def)


subsection \<open>The example iterator\<close>

lemma Replay_emits:
  "\<forall>r \<in> set rs. \<not> Is ErrIteratorDone (errOf r) \<Longrightarrow>
   emits Replay_LoadNext mdl (rs @ rest, b) rs (rest, b)"
  by (induction rs) (auto simp: Replay_LoadNext_def)

lemma Replay_exhausted: "exhausted Replay_LoadNext mdl ([], b)"
  by (simp add: exhausted_def Replay_LoadNext_def)

lemma rows_no_error: "\<forall>r \<in> set (rows n). errOf r = None"
  by (auto simp: rows_def)

lemma GroupInfos_valid:
  "assertDest impl_GroupInfo (GroupInfos s) = Inr (StructT ''GroupInfo'', Some [])"
  "impl_GroupInfo (modelType (StructT ''GroupInfo''))"
  by (simp_all add: assertDest_def GroupInfos_def impl_GroupInfo_def modelType_def)

lemmas eval_defs = Paginate_def ReadAll_def assertDest_def Paginate_loop.simps ReadAll_loop.simps
  Replay_LoadNext_def Replay_Close_def modelType_def modelZero_def word_le_nat_alt
  impl_GroupInfo_def New_nat_def GroupInfos_def three_rows_def rows_then_error_def

subsection \<open>Paginate with the default request\<close>

text \<open>
  C5. Take an iterator that returns 250 records and then \<open>ErrIteratorDone\<close>, and a
  destination that passes \<open>assertDest\<close> and whose model is a \<open>codec.ProtoMarshaler\<close>.
  \<open>Paginate\<close> with a \<open>nil\<close> request returns without error; the destination then holds
  the first 100 records, \<open>NextKey\<close> is the RowID of record 101, and \<open>Total\<close> is 250.
\<close>

theorem Paginate_nil_request_250:
  assumes "emits ln (modelZero New e) s rs s1" and "\<forall>r \<in> set rs. errOf r = None"
    and "exhausted ln (modelZero New e) s1" and "length rs = 250"
    and "assertDest impl dest = Inr (e, tmp)" and "impl (modelType e)"
  shows "\<exists>it'. Paginate impl New ln cl (Some s) None dest
           = Some (Returns \<lparr>NextKey = keyOf (rs ! 100), Total = 250\<rparr>, it',
                   Set_dest dest (Some (map (valOf (modelZero New e)) (take 100 rs))))"
proof -
  let ?mdl = "modelZero New e"
  have bound: "unat (0 :: 64 word) + length rs < 2 ^ 64" using assms(4) by simp
  have ok: "\<forall>i < length rs. unat (0 :: 64 word) \<le> unat (0 :: 64 word) + i \<longrightarrow> errOf (rs ! i) = None"
    using assms(2) by simp
  obtain nk' c' s' d' where
    loop: "Paginate_loop ln True ?mdl 0 100 True None s (Some []) 0 None (deref dest)
             = Some (None, nk', c', s', d')"
    using Paginate_loop_succeeds [OF assms(1) assms(3) bound ok] by blast
  from Paginate_loop_result [OF assms(1) assms(3) bound loop]
  have res: "nk' = keyOf (rs ! 100)" "c' = 250"
    "d' = Some (map (valOf ?mdl) (take 100 rs))"
    using assms(4) by (simp_all add: foldl_Append_Some)
  show ?thesis
    unfolding Paginate_nil_request
    using Paginate_checked [OF assms(5), where req = "\<lparr>Key = None, Offset = 0, Limit = 0, CountTotal = False\<rparr>"
            and New = New and ln = ln and cl = cl and s = s]
          assms(6) loop res
    by simp
qed

theorem Paginate_nil_request_250_witness:
  "\<exists>it'. Paginate impl_GroupInfo New_nat Replay_LoadNext Replay_Close (Some (rows 250, False)) None
            (GroupInfos None)
          = Some (Returns \<lparr>NextKey = Some [100], Total = 250\<rparr>, it', GroupInfos (Some [0..<100]))"
proof -
  let ?mdl = "modelZero New_nat (StructT ''GroupInfo'')"
  have e: "emits Replay_LoadNext ?mdl (rows 250, False) (rows 250) ([], False)"
    using Replay_emits [of "rows 250" ?mdl "[]" False] rows_no_error [of 250] by simp
  have k: "keyOf (rows 250 ! 100) = Some [100]"
    by (simp add: rows_def)
  have v: "map (valOf ?mdl) (take 100 (rows 250)) = [0..<100]"
    by (simp add: rows_def take_map map_idI o_def)
  have n: "length (rows 250) = 250" by (simp add: rows_def)
  from Paginate_nil_request_250 [OF e rows_no_error Replay_exhausted n GroupInfos_valid,
         where cl = Replay_Close and s1 = None]
  show ?thesis by (simp add: k v GroupInfos_def)
qed


subsection \<open>NextKey and Total\<close>

lemma Paginate_loop_not_ok:
  "Paginate_loop ln False mdl offset endc ct key s tmp count nk dst
     = Some (Some (Wrap ErrArgument ''should implement codec.ProtoMarshaler''), nk, count, s, dst)"
  by (subst Paginate_loop.simps) simp

lemma Paginate_Returns_checked:
  assumes "Paginate impl New ln cl (Some s) (Some req) dest = Some (Returns resp, it', dest')"
  shows "\<not> (Offset req > 0 \<and> Key req \<noteq> None)"
proof
  assume "Offset req > 0 \<and> Key req \<noteq> None"
  then have "Paginate impl New ln cl (Some s) (Some req) dest
    = Some (Fails (Errorf ''invalid request, either offset or key is expected, got both''),
            Some s, dest)"
    by (simp add: Paginate_def)
  then show False using assms by simp
qed


text \<open>
  C6. Take an iterator that returns the results \<open>rs\<close>, fewer than \<open>2 ^ 64\<close>, and then
  \<open>ErrIteratorDone\<close>, and a call of \<open>Paginate\<close> on it that returns without error. With
  \<open>limit\<close> the limit of the request, or 100 where that is 0: \<open>NextKey\<close> is the RowID of
  result number \<open>offset + limit + 1\<close> if there is one, and absent (\<open>nil\<close>) otherwise, that
  is when the iterator was exhausted within the window; the sum is that of the natural
  numbers, and the statement holds also where \<open>offset + limit\<close> wraps around. \<open>Total\<close>
  is the number of results when \<open>CountTotal\<close> is set or the limit is 0, and the key is
  empty; it is 0 otherwise. In particular with offset 300 and limit 50 over 250
  records the call returns without error, the destination holds the empty slice,
  \<open>NextKey\<close> is absent and \<open>Total\<close> is 250 when \<open>CountTotal\<close> is set.
\<close>

theorem Paginate_nextKey_total:
  "(emits ln (modelZero New e) s rs s1 \<and> exhausted ln (modelZero New e) s1 \<and> length rs < 2 ^ 64
      \<and> assertDest impl dest = Inr (e, tmp)
      \<and> Paginate impl New ln cl (Some s) (Some req) dest = Some (Returns resp, it', dest')
    \<longrightarrow> NextKey resp =
          (if unat (Offset req) + unat (if Limit req = 0 then 100 else Limit req) < length rs
           then keyOf (rs ! (unat (Offset req) + unat (if Limit req = 0 then 100 else Limit req)))
           else None)
        \<and> Total resp =
          (if (CountTotal req \<or> Limit req = 0) \<and> len (Key req) = 0 then of_nat (length rs) else 0))
   \<and> (emits ln (modelZero New e) s rs s1 \<and> (\<forall>r \<in> set rs. errOf r = None)
      \<and> exhausted ln (modelZero New e) s1 \<and> length rs = 250
      \<and> assertDest impl dest = Inr (e, tmp) \<and> impl (modelType e)
    \<longrightarrow> (\<exists>it'. Paginate impl New ln cl (Some s)
                 (Some \<lparr>Key = None, Offset = 300, Limit = 50, CountTotal = ct\<rparr>) dest
               = Some (Returns \<lparr>NextKey = None, Total = (if ct then 250 else 0)\<rparr>, it',
                       Set_dest dest (Some []))))"
proof (rule conjI; rule impI)
  let ?mdl = "modelZero New e"
  let ?limit = "if Limit req = 0 then 100 else Limit req"
  let ?ct = "if Limit req = 0 then True else CountTotal req"
  assume h: "emits ln ?mdl s rs s1 \<and> exhausted ln ?mdl s1 \<and> length rs < 2 ^ 64
      \<and> assertDest impl dest = Inr (e, tmp)
      \<and> Paginate impl New ln cl (Some s) (Some req) dest = Some (Returns resp, it', dest')"
  then have em: "emits ln ?mdl s rs s1" and ex: "exhausted ln ?mdl s1"
    and n: "length rs < 2 ^ 64" and ad: "assertDest impl dest = Inr (e, tmp)"
    and p: "Paginate impl New ln cl (Some s) (Some req) dest = Some (Returns resp, it', dest')"
    by auto
  note unf = Paginate_checked [OF ad Paginate_Returns_checked [OF p], of New ln cl s]
  have ok: "impl (modelType e)"
  proof (rule ccontr)
    assume "\<not> impl (modelType e)"
    then show False using p unf by (simp add: Paginate_loop_not_ok)
  qed
  obtain nk' c' s' d' where
    loop: "Paginate_loop ln True ?mdl (Offset req) (Offset req + ?limit) ?ct (Key req) s (Some []) 0
             None (deref dest) = Some (None, nk', c', s', d')"
    and resp: "resp = \<lparr>NextKey = nk', Total = (if ?ct \<and> len (Key req) = 0 then c' else 0)\<rparr>"
    using p ok unfolding unf by (auto split: option.splits)
  have bound: "unat (0 :: 64 word) + length rs < 2 ^ 64" using n by simp
  note res = Paginate_loop_result [OF em ex bound loop]
  note w = wrap_window [OF n, of "Offset req" ?limit]
  have "nk' = (if unat (Offset req) + unat ?limit < length rs
               then keyOf (rs ! (unat (Offset req) + unat ?limit)) else None)"
  proof (cases "unat (Offset req) + unat ?limit < length rs")
    case True
    then show ?thesis using res w by simp
  next
    case False
    then show ?thesis using res w(1) by simp
  qed
  moreover have "?ct \<and> len (Key req) = 0 \<longrightarrow> c' = of_nat (length rs)"
    using res by simp
  ultimately show "NextKey resp =
          (if unat (Offset req) + unat ?limit < length rs
           then keyOf (rs ! (unat (Offset req) + unat ?limit))
           else None)
        \<and> Total resp =
          (if (CountTotal req \<or> Limit req = 0) \<and> len (Key req) = 0 then of_nat (length rs) else 0)"
    using resp by auto
next
  let ?mdl = "modelZero New e"
  let ?req = "\<lparr>Key = None, Offset = 300, Limit = 50, CountTotal = ct\<rparr>"
  assume h: "emits ln ?mdl s rs s1 \<and> (\<forall>r \<in> set rs. errOf r = None)
      \<and> exhausted ln ?mdl s1 \<and> length rs = 250
      \<and> assertDest impl dest = Inr (e, tmp) \<and> impl (modelType e)"
  then have em: "emits ln ?mdl s rs s1" and ex: "exhausted ln ?mdl s1"
    and n: "length rs = 250" and ad: "assertDest impl dest = Inr (e, tmp)"
    and ok: "impl (modelType e)" and good: "\<forall>r \<in> set rs. errOf r = None"
    by auto
  have bound: "unat (0 :: 64 word) + length rs < 2 ^ 64" using n by simp
  have noerr: "\<forall>i < length rs. unat (300 :: 64 word) \<le> unat (0 :: 64 word) + i \<longrightarrow> errOf (rs ! i) = None"
    using good by simp
  obtain nk' c' s' d' where
    loop: "Paginate_loop ln True ?mdl 300 350 ct None s (Some []) 0 None (deref dest)
             = Some (None, nk', c', s', d')"
    using Paginate_loop_succeeds [OF em ex bound noerr] by blast
  from Paginate_loop_result [OF em ex bound loop]
  have res: "nk' = None" "ct \<longrightarrow> c' = 250" "d' = Some []"
    using n by simp_all
  show "\<exists>it'. Paginate impl New ln cl (Some s) (Some ?req) dest
               = Some (Returns \<lparr>NextKey = None, Total = (if ct then 250 else 0)\<rparr>, it',
                       Set_dest dest (Some []))"
    using Paginate_checked [OF ad, where req = ?req and New = New and ln = ln and cl = cl and s = s]
          ok loop res
    by simp
qed


theorem Paginate_nextKey_total_witness:
  "Paginate impl_GroupInfo New_nat Replay_LoadNext Replay_Close (Some (three_rows, False))
       (Some \<lparr>Key = None, Offset = 1, Limit = 1, CountTotal = False\<rparr>) (GroupInfos None)
     = Some (Returns \<lparr>NextKey = Some [3], Total = 0\<rparr>, Some ([], True), GroupInfos (Some [20]))
   \<and> (\<exists>it'. Paginate impl_GroupInfo New_nat Replay_LoadNext Replay_Close (Some (rows 250, False))
                (Some \<lparr>Key = None, Offset = 300, Limit = 50, CountTotal = True\<rparr>) (GroupInfos None)
              = Some (Returns \<lparr>NextKey = None, Total = 250\<rparr>, it', GroupInfos (Some [])))"
proof -
  let ?mdl = "modelZero New_nat (StructT ''GroupInfo'')"
  let ?req = "\<lparr>Key = None, Offset = 1, Limit = 1, CountTotal = False\<rparr>"
  have p: "Paginate impl_GroupInfo New_nat Replay_LoadNext Replay_Close (Some (three_rows, False))
       (Some ?req) (GroupInfos None)
     = Some (Returns \<lparr>NextKey = Some [3], Total = 0\<rparr>, Some ([], True), GroupInfos (Some [20]))"
    by (simp add: eval_defs)
  have e3: "emits Replay_LoadNext ?mdl (three_rows, False) three_rows ([], False)"
    using Replay_emits [of three_rows ?mdl "[]" False] by (simp add: three_rows_def)
  have l3: "length three_rows < 2 ^ 64" by (simp add: three_rows_def)
  have h1: "emits Replay_LoadNext ?mdl (three_rows, False) three_rows ([], False)
        \<and> exhausted Replay_LoadNext ?mdl ([], False) \<and> length three_rows < 2 ^ 64
        \<and> assertDest impl_GroupInfo (GroupInfos None) = Inr (StructT ''GroupInfo'', Some [])
        \<and> Paginate impl_GroupInfo New_nat Replay_LoadNext Replay_Close (Some (three_rows, False))
             (Some ?req) (GroupInfos None)
           = Some (Returns \<lparr>NextKey = Some [3], Total = 0\<rparr>, Some ([], True), GroupInfos (Some [20]))"
    using e3 Replay_exhausted GroupInfos_valid p l3 by simp
  have e: "emits Replay_LoadNext ?mdl (rows 250, False) (rows 250) ([], False)"
    using Replay_emits [of "rows 250" ?mdl "[]" False] rows_no_error [of 250] by simp
  have l250: "length (rows 250) = 250" by (simp add: rows_def)
  have h2: "emits Replay_LoadNext ?mdl (rows 250, False) (rows 250) ([], False)
        \<and> (\<forall>r \<in> set (rows 250). errOf r = None)
        \<and> exhausted Replay_LoadNext ?mdl ([], False) \<and> length (rows 250) = 250
        \<and> assertDest impl_GroupInfo (GroupInfos None) = Inr (StructT ''GroupInfo'', Some [])
        \<and> impl_GroupInfo (modelType (StructT ''GroupInfo''))"
    using e rows_no_error Replay_exhausted GroupInfos_valid l250 by simp
  note t1 = Paginate_nextKey_total [THEN conjunct1, THEN mp, OF h1]
  note t2 = Paginate_nextKey_total [where cl = Replay_Close and ct = True,
              THEN conjunct2, THEN mp, OF h2]
  from t1 t2 p show ?thesis by (simp add: GroupInfos_def)
qed


subsection \<open>ReadAll\<close>

lemma ReadAll_checked:
  assumes "assertDest impl dest = Inr (e, tmp)"
  shows "ReadAll impl New ln cl (Some s) dest =
     (case ReadAll_loop ln (impl (modelType e)) (modelZero New e) s (Some []) None (deref dest) of
        None \<Rightarrow> None
      | Some (r, s', destRef) \<Rightarrow> Some (r, Some (snd (cl s')), Set_dest dest destRef))"
  using assms assertDest_Inr [OF assms]
  by (auto simp: ReadAll_def)


text \<open>
  C7. Take a destination that passes \<open>assertDest\<close> and whose model is a
  \<open>codec.ProtoMarshaler\<close>. For an iterator whose first \<open>LoadNext\<close> reports
  \<open>ErrIteratorDone\<close>, \<open>ReadAll\<close> returns no error and the \<open>nil\<close> list of RowIDs, and the
  destination then holds the empty slice that is not \<open>nil\<close>. For an iterator that
  returns the records \<open>rs\<close> and then \<open>ErrIteratorDone\<close>, \<open>ReadAll\<close> returns their RowIDs in
  the order read, and the destination then holds exactly these records in that order.
\<close>

theorem ReadAll_commits_on_done:
  "(exhausted ln (modelZero New e) s \<and> assertDest impl dest = Inr (e, tmp) \<and> impl (modelType e)
    \<longrightarrow> ReadAll impl New ln cl (Some s) dest
          = Some (Returns None, Some (snd (cl (snd (ln (Some (modelZero New e)) s)))),
                  Set_dest dest (Some [])))
   \<and> (emits ln (modelZero New e) s rs s1 \<and> (\<forall>r \<in> set rs. errOf r = None)
      \<and> exhausted ln (modelZero New e) s1 \<and> assertDest impl dest = Inr (e, tmp) \<and> impl (modelType e)
    \<longrightarrow> ReadAll impl New ln cl (Some s) dest
          = Some (Returns (if rs = [] then None else Some (map keyOf rs)),
                  Some (snd (cl (snd (ln (Some (modelZero New e)) s1)))),
                  Set_dest dest (Some (map (valOf (modelZero New e)) rs))))"
proof -
  have general: "ReadAll impl New ln cl (Some s) dest
          = Some (Returns (if rs = [] then None else Some (map keyOf rs)),
                  Some (snd (cl (snd (ln (Some (modelZero New e)) s1)))),
                  Set_dest dest (Some (map (valOf (modelZero New e)) rs)))"
    if "emits ln (modelZero New e) s rs s1" "\<forall>r \<in> set rs. errOf r = None"
      "exhausted ln (modelZero New e) s1" "assertDest impl dest = Inr (e, tmp)" "impl (modelType e)"
    for s rs s1
    using ReadAll_loop_emits [OF that(1) that(2) that(3), of "Some []" None "deref dest"]
      ReadAll_checked [OF that(4), of New ln cl s] that(5)
    by (simp add: foldl_Append_Some foldl_Append_None)
  show ?thesis
    using general [of s "[]" s] general [of s rs s1] by simp
qed

theorem ReadAll_commits_on_done_witness:
  "ReadAll impl_GroupInfo New_nat Replay_LoadNext Replay_Close (Some ([], False)) (GroupInfos None)
     = Some (Returns None, Some ([], True), GroupInfos (Some []))
   \<and> ReadAll impl_GroupInfo New_nat Replay_LoadNext Replay_Close (Some (three_rows, False))
       (GroupInfos (Some [4]))
     = Some (Returns (Some [Some [1], Some [2], Some [3]]), Some ([], True),
             GroupInfos (Some [10, 20, 30]))"
proof -
  let ?mdl = "modelZero New_nat (StructT ''GroupInfo'')"
  have h1: "exhausted Replay_LoadNext ?mdl ([], False)
        \<and> assertDest impl_GroupInfo (GroupInfos None) = Inr (StructT ''GroupInfo'', Some [])
        \<and> impl_GroupInfo (modelType (StructT ''GroupInfo''))"
    using Replay_exhausted GroupInfos_valid by simp
  have e3: "emits Replay_LoadNext ?mdl (three_rows, False) three_rows ([], False)"
    using Replay_emits [of three_rows ?mdl "[]" False] by (simp add: three_rows_def)
  have ok3: "\<forall>r \<in> set three_rows. errOf r = None" by (simp add: three_rows_def)
  have h2: "emits Replay_LoadNext ?mdl (three_rows, False) three_rows ([], False)
        \<and> (\<forall>r \<in> set three_rows. errOf r = None)
        \<and> exhausted Replay_LoadNext ?mdl ([], False)
        \<and> assertDest impl_GroupInfo (GroupInfos (Some [4])) = Inr (StructT ''GroupInfo'', Some [])
        \<and> impl_GroupInfo (modelType (StructT ''GroupInfo''))"
    using e3 Replay_exhausted GroupInfos_valid ok3 by simp
  note t1 = ReadAll_commits_on_done [where cl = Replay_Close, THEN conjunct1, THEN mp, OF h1]
  note t2 = ReadAll_commits_on_done [where cl = Replay_Close, THEN conjunct2, THEN mp, OF h2]
  from t1 t2 show ?thesis
    by (simp add: GroupInfos_def Replay_LoadNext_def Replay_Close_def three_rows_def modelZero_def)
qed


subsection \<open>The destination on an error return\<close>

lemma Append_not_None [simp]: "Append t v \<noteq> None"
  by (cases t) auto

lemma ReadAll_loop_dest_on_error:
  assumes "ReadAll_loop ln ok mdl s tmp ids dst = Some y"
  shows "(\<forall>x. fst y \<noteq> Returns x) \<longrightarrow> snd (snd y) = dst"
  by (rule ReadAll_loop.raw_induct [OF _ assms])
     (auto split: if_splits prod.splits option.splits)

lemma Paginate_loop_dest_on_error:
  assumes "Paginate_loop ln ok mdl offset endc ct key s tmp count nk dst = Some y"
  shows "tmp \<noteq> None \<longrightarrow> fst y \<noteq> None \<longrightarrow>
           snd (snd (snd (snd y))) = dst \<or> (ct \<and> len key = 0 \<and> snd (snd (snd (snd y))) \<noteq> None)"
proof (rule Paginate_loop.raw_induct [OF _ assms], goal_cases)
  case (1 f ln ok mdl offset endc ct key s tmp count nk dst y)
  note IH = 1(1) and eq = 1(2)
  show ?case
  proof (cases ok)
    case False
    then show ?thesis using eq by auto
  next
    case True
    obtain binKey err d it' where step: "ln (Some mdl) s = ((binKey, err, d), it')"
      by (cases "ln (Some mdl) s") auto
    from eq True step have eq':
      "(if Is ErrIteratorDone err then Some (None, nk, count, it', tmp)
        else if count + 1 \<le> offset
          then f ln ok mdl offset endc ct key it' tmp (count + 1) nk dst
        else if err \<noteq> None then Some (err, nk, count + 1, it', dst)
        else if count + 1 \<le> endc
          then f ln ok mdl offset endc ct key it' (Append tmp (loaded mdl d)) (count + 1) nk dst
        else if count + 1 = endc + 1
          then (if \<not> ct \<or> len key \<noteq> 0 then Some (None, binKey, count + 1, it', tmp)
                else f ln ok mdl offset endc ct key it' tmp (count + 1) binKey tmp)
        else f ln ok mdl offset endc ct key it' tmp (count + 1) nk dst) = Some y"
      by simp
    consider (exhaust) "Some (None, nk, count, it', tmp) = Some y"
      | (same) "f ln ok mdl offset endc ct key it' tmp (count + 1) nk dst = Some y"
      | (app) "f ln ok mdl offset endc ct key it' (Append tmp (loaded mdl d)) (count + 1) nk dst
                 = Some y"
      | (failed) "Some (err, nk, count + 1, it', dst) = Some y"
      | (stop) "Some (None, binKey, count + 1, it', tmp) = Some y"
      | (commit) "f ln ok mdl offset endc ct key it' tmp (count + 1) binKey tmp = Some y"
          "ct" "len key = 0"
      using eq' by (auto split: if_splits)
    then show ?thesis
    proof cases
      case exhaust
      then show ?thesis by auto
    next
      case same
      from IH [OF same] show ?thesis by blast
    next
      case app
      from IH [OF app] show ?thesis by simp
    next
      case failed
      then show ?thesis by auto
    next
      case stop
      then show ?thesis by auto
    next
      case commit
      from IH [OF commit(1)] commit(2,3) show ?thesis by blast
    qed
  qed
qed

lemma Paginate_loop_fails:
  assumes "emits ln mdl s pre s1"
    and "ln (Some mdl) s1 = ((k, Some e, d), s2)" and "\<not> Is ErrIteratorDone (Some e)"
    and "\<forall>i < length pre. unat offset \<le> unat count + i \<longrightarrow> errOf (pre ! i) = None"
    and "unat offset \<le> unat count + length pre"
    and "unat count + length pre + 1 < 2 ^ 64"
    and "ct" and "len key = 0"
  shows "\<exists>nk' c'.
           Paginate_loop ln True mdl offset endc ct key s tmp count nk dst
             = Some (Some e, nk', c', s2,
                 (if unat count \<le> unat endc \<and> unat offset \<le> unat endc
                     \<and> unat endc - unat count < length pre
                  then foldl Append tmp (map (valOf mdl)
                         (take (unat endc - max (unat count) (unat offset))
                            (drop (unat offset - unat count) pre)))
                  else dst))"
  using assms(1,4,5,6)
proof (induction pre arbitrary: s tmp count nk dst)
  case Nil
  then have s: "s = s1" by simp
  have c1: "unat (count + 1) = Suc (unat count)"
    using Nil.prems(4) unat_succ64 [of count] by simp
  have "\<not> count + 1 \<le> offset"
    using Nil.prems(3) by (simp add: word_le_nat_alt c1)
  then show ?case
    using Paginate_loop_round [where ln = ln and mdl = mdl and s = s1, OF assms(2) assms(3)] s
    by simp
next
  case (Cons r rs)
  obtain binKey err d' it' where step: "ln (Some mdl) s = ((binKey, err, d'), it')"
    by (cases "ln (Some mdl) s") auto
  from Cons.prems(1) step have r: "r = (binKey, err, d')" and nd: "\<not> Is ErrIteratorDone err"
    and rest: "emits ln mdl it' rs s1"
    by auto
  have c1: "unat (count + 1) = Suc (unat count)"
    using Cons.prems(4) unat_succ64 [of count] by simp
  have bound: "unat (count + 1) + length rs + 1 < 2 ^ 64"
    using Cons.prems(4) c1 by simp
  have past: "unat offset \<le> unat (count + 1) + length rs"
    using Cons.prems(3) c1 by simp
  have later: "\<forall>i < length rs. unat offset \<le> unat (count + 1) + i \<longrightarrow> errOf (rs ! i) = None"
  proof (intro allI impI)
    fix i assume "i < length rs" "unat offset \<le> unat (count + 1) + i"
    then have "Suc i < length (r # rs)" "unat offset \<le> unat count + Suc i"
      using c1 by auto
    with Cons.prems(2) have "errOf ((r # rs) ! Suc i) = None" by blast
    then show "errOf (rs ! i) = None" by simp
  qed
  have first: "\<not> Suc (unat count) \<le> unat offset \<Longrightarrow> err = None"
    using Cons.prems(2) [rule_format, of 0] r by simp
  have le_off: "count + 1 \<le> offset \<longleftrightarrow> Suc (unat count) \<le> unat offset"
    by (simp add: word_le_nat_alt c1)
  have le_end: "count + 1 \<le> endc \<longleftrightarrow> Suc (unat count) \<le> unat endc"
    by (simp add: word_le_nat_alt c1)
  have eq_end: "count = endc \<longleftrightarrow> unat count = unat endc"
    by (rule word_unat_eq_iff)
  note round = Paginate_loop_round [where ln = ln and mdl = mdl and s = s and offset = offset
      and endc = endc and ct = ct and key = key and tmp = tmp and count = count and nk = nk
      and dst = dst, OF step nd]
  note IH = Cons.IH [OF rest later past bound]
  consider (skip) "Suc (unat count) \<le> unat offset"
    | (app) "\<not> Suc (unat count) \<le> unat offset" "err = None" "Suc (unat count) \<le> unat endc"
    | (commit) "\<not> Suc (unat count) \<le> unat offset" "err = None" "\<not> Suc (unat count) \<le> unat endc"
        "unat count = unat endc"
    | (beyond) "\<not> Suc (unat count) \<le> unat offset" "err = None" "\<not> Suc (unat count) \<le> unat endc"
        "unat count \<noteq> unat endc"
    using first by blast
  then show ?case
  proof cases
    case skip
    have m: "max (Suc (unat count)) (unat offset) = unat offset"
            "max (unat count) (unat offset) = unat offset"
            "unat offset - unat count = Suc (unat offset - Suc (unat count))"
      using skip by auto
    have k: "unat count \<le> unat endc \<and> unat offset \<le> unat endc
               \<and> unat endc - unat count < length (r # rs)
             \<longleftrightarrow> Suc (unat count) \<le> unat endc \<and> unat offset \<le> unat endc
               \<and> unat endc - Suc (unat count) < length rs"
      using skip by auto
    have "Paginate_loop ln True mdl offset endc ct key s tmp count nk dst
            = Paginate_loop ln True mdl offset endc ct key it' tmp (count + 1) nk dst"
      using round skip by (simp add: le_off)
    then show ?thesis
      unfolding k m using IH [of tmp nk dst, unfolded c1 m] by auto
  next
    case app
    have m: "max (Suc (unat count)) (unat offset) = Suc (unat count)"
            "max (unat count) (unat offset) = unat count"
            "unat offset - unat count = 0" "unat offset - Suc (unat count) = 0"
            "unat endc - unat count = Suc (unat endc - Suc (unat count))"
      using app by auto
    have k: "unat count \<le> unat endc \<and> unat offset \<le> unat endc
               \<and> Suc (unat endc - Suc (unat count)) < length (r # rs)
             \<longleftrightarrow> Suc (unat count) \<le> unat endc \<and> unat offset \<le> unat endc
               \<and> unat endc - Suc (unat count) < length rs"
      using app by auto
    have "Paginate_loop ln True mdl offset endc ct key s tmp count nk dst
            = Paginate_loop ln True mdl offset endc ct key it' (Append tmp (loaded mdl d'))
                (count + 1) nk dst"
      using round app by (simp add: le_off le_end)
    then show ?thesis
      unfolding m k using IH [of "Append tmp (loaded mdl d')" nk dst, unfolded c1 m] r by auto
  next
    case commit
    have m: "max (Suc (unat count)) (unat offset) = Suc (unat count)"
            "max (unat count) (unat offset) = unat count"
            "unat endc - unat count = 0" "unat endc - Suc (unat count) = 0"
      using commit by auto
    have k: "unat count \<le> unat endc" "unat offset \<le> unat endc" "\<not> Suc (unat count) \<le> unat endc"
      using commit by auto
    have "Paginate_loop ln True mdl offset endc ct key s tmp count nk dst
            = Paginate_loop ln True mdl offset endc ct key it' tmp (count + 1) binKey tmp"
      using round commit assms(7,8) by (simp add: le_off le_end eq_end)
    then show ?thesis
      unfolding m using IH [of tmp binKey tmp, unfolded c1 m] k by auto
  next
    case beyond
    have m: "max (Suc (unat count)) (unat offset) = Suc (unat count)"
            "max (unat count) (unat offset) = unat count"
            "unat endc - unat count = 0" "unat endc - Suc (unat count) = 0"
      using beyond by auto
    have k: "\<not> unat count \<le> unat endc" "\<not> Suc (unat count) \<le> unat endc"
      using beyond by auto
    have "Paginate_loop ln True mdl offset endc ct key s tmp count nk dst
            = Paginate_loop ln True mdl offset endc ct key it' tmp (count + 1) nk dst"
      using round beyond by (simp add: le_off le_end eq_end)
    then show ?thesis
      unfolding m using IH [of tmp nk dst, unfolded c1 m] k by auto
  qed
qed

lemma Set_dest_deref:
  "assertDest impl dest = Inr (e, tmp) \<Longrightarrow> Set_dest dest (deref dest) = dest"
  using assertDest_Inr [of impl dest e tmp] by auto


lemma destination_unless_counting:
  "(ReadAll impl New ln cl it dest = Some (r, it', dest') \<and> (\<forall>x. r \<noteq> Returns x) \<longrightarrow> dest' = dest)
   \<and> (Paginate impl New ln cl it req dest = Some (Fails err, it2, dest2) \<longrightarrow>
        dest2 = dest \<or>
        ((case req of None \<Rightarrow> True | Some q \<Rightarrow> (CountTotal q \<or> Limit q = 0) \<and> len (Key q) = 0)
          \<and> (\<exists>page. dest2 = Set_dest dest (Some page))))"
proof (rule conjI; rule impI)
  assume h: "ReadAll impl New ln cl it dest = Some (r, it', dest') \<and> (\<forall>x. r \<noteq> Returns x)"
  show "dest' = dest"
  proof (cases it)
    case None
    then show ?thesis using h by (simp add: ReadAll_def)
  next
    case (Some s)
    show ?thesis
    proof (cases "assertDest impl dest")
      case (Inl e)
      then show ?thesis using h Some by (simp add: ReadAll_def)
    next
      case (Inr p)
      obtain e tmp where p: "assertDest impl dest = Inr (e, tmp)" using Inr by (cases p) auto
      from h Some ReadAll_checked [OF p, of New ln cl s] obtain s' d' where
        loop: "ReadAll_loop ln (impl (modelType e)) (modelZero New e) s (Some []) None (deref dest)
                 = Some (r, s', d')"
        and d: "dest' = Set_dest dest d'"
        by (auto split: option.splits)
      from ReadAll_loop_dest_on_error [OF loop] h have "d' = deref dest" by simp
      then show ?thesis using d Set_dest_deref [OF p] by simp
    qed
  qed
next
  let ?q = "case req of None \<Rightarrow> \<lparr>Key = None, Offset = 0, Limit = 0, CountTotal = False\<rparr> | Some q \<Rightarrow> q"
  let ?counting = "case req of None \<Rightarrow> True | Some q \<Rightarrow> (CountTotal q \<or> Limit q = 0) \<and> len (Key q) = 0"
  assume "Paginate impl New ln cl it req dest = Some (Fails err, it2, dest2)"
  then have h: "Paginate impl New ln cl it (Some ?q) dest = Some (Fails err, it2, dest2)"
    by (cases req) (simp_all add: Paginate_nil_request)
  have counting: "?counting \<longleftrightarrow> (if Limit ?q = 0 then True else CountTotal ?q) \<and> len (Key ?q) = 0"
    by (cases req) auto
  show "dest2 = dest \<or> (?counting \<and> (\<exists>page. dest2 = Set_dest dest (Some page)))"
  proof (cases "Offset ?q > 0 \<and> Key ?q \<noteq> None")
    case True
    then have "Paginate impl New ln cl it (Some ?q) dest
      = Some (Fails (Errorf ''invalid request, either offset or key is expected, got both''), it, dest)"
      by (simp add: Paginate_def)
    then show ?thesis using h by simp
  next
    case shape: False
    show ?thesis
    proof (cases it)
      case None
      then show ?thesis using h shape by (auto simp: Paginate_def Let_def)
    next
      case (Some s)
      show ?thesis
      proof (cases "assertDest impl dest")
        case (Inl e)
        then show ?thesis using h Some shape by (auto simp: Paginate_def Let_def)
      next
        case (Inr p)
        obtain e tmp where p: "assertDest impl dest = Inr (e, tmp)" using Inr by (cases p) auto
        from h Some Paginate_checked [OF p shape, of New ln cl s] obtain y where
          loop: "Paginate_loop ln (impl (modelType e)) (modelZero New e) (Offset ?q)
                   (Offset ?q + (if Limit ?q = 0 then 100 else Limit ?q))
                   (if Limit ?q = 0 then True else CountTotal ?q) (Key ?q) s (Some []) 0 None (deref dest)
                 = Some y"
          and e: "fst y \<noteq> None" and d: "dest2 = Set_dest dest (snd (snd (snd (snd y))))"
          by (auto split: option.splits)
        from Paginate_loop_dest_on_error [OF loop] e
        have "snd (snd (snd (snd y))) = deref dest
              \<or> ((if Limit ?q = 0 then True else CountTotal ?q) \<and> len (Key ?q) = 0
                  \<and> snd (snd (snd (snd y))) \<noteq> None)"
          by simp
        then show ?thesis
          using d Set_dest_deref [OF p] counting by auto
      qed
    qed
  qed
qed

text \<open>
  C10, as the code has it. Whenever \<open>ReadAll\<close> returns an error (or panics), the
  destination is as it was before the call. A \<open>nil\<close> request is the request with offset
  0, no key, limit 0 and \<open>CountTotal\<close> unset. \<open>Paginate\<close> returns an error with the
  destination as it was before the call for a \<open>nil\<close> iterator, a request with an offset
  and a key, a destination that fails \<open>assertDest\<close>, and a model that is not a
  \<open>codec.ProtoMarshaler\<close>. Whenever \<open>Paginate\<close> returns an error and does not count the
  total (\<open>CountTotal\<close> unset and a limit that is not 0, or a key that is not empty), the
  destination is as it was before the call. Where it counts the total and the iterator
  returns the results \<open>pre\<close>, those past the offset without error, and then an error that
  is not \<open>ErrIteratorDone\<close>, with fewer than \<open>2 ^ 64\<close> results in all: \<open>Paginate\<close> returns
  that error and closes the iterator; if \<open>pre\<close> has more than \<open>offset + limit\<close> results, so
  that the record past the window was read before the error, the destination holds
  exactly the page, the records \<open>offset + 1\<close> to \<open>offset + limit\<close>; otherwise the
  destination is as it was before the call.
\<close>

theorem destination_on_error:
  "(ReadAll impl New ln cl it dest = Some (r, it', dest') \<and> (\<forall>x. r \<noteq> Returns x) \<longrightarrow> dest' = dest)
   \<and> Paginate impl New ln cl it None dest
       = Paginate impl New ln cl it (Some \<lparr>Key = None, Offset = 0, Limit = 0, CountTotal = False\<rparr>) dest
   \<and> (it = None \<or> (Offset q > 0 \<and> Key q \<noteq> None) \<or> (\<exists>a. assertDest impl dest = Inl a)
        \<or> (\<exists>t tmp. assertDest impl dest = Inr (t, tmp) \<and> \<not> impl (modelType t))
      \<longrightarrow> (\<exists>a it3. Paginate impl New ln cl it (Some q) dest = Some (Fails a, it3, dest)))
   \<and> (Paginate impl New ln cl it (Some q) dest = Some (Fails err, it2, dest2)
        \<and> \<not> ((CountTotal q \<or> Limit q = 0) \<and> len (Key q) = 0)
      \<longrightarrow> dest2 = dest)
   \<and> (emits ln (modelZero New e) s pre s1
        \<and> ln (Some (modelZero New e)) s1 = ((k, Some err, d), s2) \<and> \<not> Is ErrIteratorDone (Some err)
        \<and> (\<forall>i < length pre. unat (Offset q) \<le> i \<longrightarrow> errOf (pre ! i) = None)
        \<and> unat (Offset q) \<le> length pre \<and> length pre + 1 < 2 ^ 64
        \<and> assertDest impl dest = Inr (e, tmp) \<and> impl (modelType e)
        \<and> \<not> (Offset q > 0 \<and> Key q \<noteq> None)
        \<and> (CountTotal q \<or> Limit q = 0) \<and> len (Key q) = 0
      \<longrightarrow> Paginate impl New ln cl (Some s) (Some q) dest
          = Some (Fails err, Some (snd (cl s2)),
                  (if unat (Offset q) + unat (if Limit q = 0 then 100 else Limit q) < length pre
                   then Set_dest dest (Some (map (valOf (modelZero New e))
                          (take (unat (if Limit q = 0 then 100 else Limit q))
                             (drop (unat (Offset q)) pre))))
                   else dest)))"
proof (intro conjI)
  show "ReadAll impl New ln cl it dest = Some (r, it', dest') \<and> (\<forall>x. r \<noteq> Returns x) \<longrightarrow> dest' = dest"
    using destination_unless_counting [THEN conjunct1] .
next
  show "Paginate impl New ln cl it None dest
       = Paginate impl New ln cl it (Some \<lparr>Key = None, Offset = 0, Limit = 0, CountTotal = False\<rparr>) dest"
    by (rule Paginate_nil_request)
next
  show "it = None \<or> (Offset q > 0 \<and> Key q \<noteq> None) \<or> (\<exists>a. assertDest impl dest = Inl a)
        \<or> (\<exists>t tmp. assertDest impl dest = Inr (t, tmp) \<and> \<not> impl (modelType t))
      \<longrightarrow> (\<exists>a it3. Paginate impl New ln cl it (Some q) dest = Some (Fails a, it3, dest))"
  proof
    assume h: "it = None \<or> (Offset q > 0 \<and> Key q \<noteq> None) \<or> (\<exists>a. assertDest impl dest = Inl a)
        \<or> (\<exists>t tmp. assertDest impl dest = Inr (t, tmp) \<and> \<not> impl (modelType t))"
    show "\<exists>a it3. Paginate impl New ln cl it (Some q) dest = Some (Fails a, it3, dest)"
    proof (cases "Offset q > 0 \<and> Key q \<noteq> None")
      case True
      then show ?thesis by (simp add: Paginate_def)
    next
      case shape: False
      show ?thesis
      proof (cases it)
        case None
        then show ?thesis using shape by (auto simp: Paginate_def Let_def)
      next
        case (Some s)
        show ?thesis
        proof (cases "assertDest impl dest")
          case (Inl a)
          then show ?thesis using Some shape by (auto simp: Paginate_def Let_def)
        next
          case (Inr p)
          obtain t tmp where p: "assertDest impl dest = Inr (t, tmp)" using Inr by (cases p) auto
          then have "\<not> impl (modelType t)" using h Some shape by auto
          then show ?thesis
            using Some Paginate_checked [OF p shape, of New ln cl s] Set_dest_deref [OF p]
            by (simp add: Paginate_loop_not_ok)
        qed
      qed
    qed
  qed
next
  show "Paginate impl New ln cl it (Some q) dest = Some (Fails err, it2, dest2)
        \<and> \<not> ((CountTotal q \<or> Limit q = 0) \<and> len (Key q) = 0)
      \<longrightarrow> dest2 = dest"
    using destination_unless_counting [THEN conjunct2, of impl New ln cl it "Some q" dest err it2 dest2]
    by auto
next
  let ?mdl = "modelZero New e"
  let ?limit = "if Limit q = 0 then 100 else Limit q"
  show "emits ln ?mdl s pre s1
        \<and> ln (Some ?mdl) s1 = ((k, Some err, d), s2) \<and> \<not> Is ErrIteratorDone (Some err)
        \<and> (\<forall>i < length pre. unat (Offset q) \<le> i \<longrightarrow> errOf (pre ! i) = None)
        \<and> unat (Offset q) \<le> length pre \<and> length pre + 1 < 2 ^ 64
        \<and> assertDest impl dest = Inr (e, tmp) \<and> impl (modelType e)
        \<and> \<not> (Offset q > 0 \<and> Key q \<noteq> None)
        \<and> (CountTotal q \<or> Limit q = 0) \<and> len (Key q) = 0
      \<longrightarrow> Paginate impl New ln cl (Some s) (Some q) dest
          = Some (Fails err, Some (snd (cl s2)),
                  (if unat (Offset q) + unat ?limit < length pre
                   then Set_dest dest (Some (map (valOf ?mdl) (take (unat ?limit) (drop (unat (Offset q)) pre))))
                   else dest))"
  proof
    assume h: "emits ln ?mdl s pre s1
        \<and> ln (Some ?mdl) s1 = ((k, Some err, d), s2) \<and> \<not> Is ErrIteratorDone (Some err)
        \<and> (\<forall>i < length pre. unat (Offset q) \<le> i \<longrightarrow> errOf (pre ! i) = None)
        \<and> unat (Offset q) \<le> length pre \<and> length pre + 1 < 2 ^ 64
        \<and> assertDest impl dest = Inr (e, tmp) \<and> impl (modelType e)
        \<and> \<not> (Offset q > 0 \<and> Key q \<noteq> None)
        \<and> (CountTotal q \<or> Limit q = 0) \<and> len (Key q) = 0"
    then have em: "emits ln ?mdl s pre s1" and fail: "ln (Some ?mdl) s1 = ((k, Some err, d), s2)"
      and nd: "\<not> Is ErrIteratorDone (Some err)"
      and good: "\<forall>i < length pre. unat (Offset q) \<le> unat (0 :: 64 word) + i \<longrightarrow> errOf (pre ! i) = None"
      and past: "unat (Offset q) \<le> unat (0 :: 64 word) + length pre"
      and bound: "unat (0 :: 64 word) + length pre + 1 < 2 ^ 64"
      and ad: "assertDest impl dest = Inr (e, tmp)" and ok: "impl (modelType e)"
      and shape: "\<not> (Offset q > 0 \<and> Key q \<noteq> None)"
      and ct: "if Limit q = 0 then True else CountTotal q" and key: "len (Key q) = 0"
      by auto
    define lim where "lim = (if Limit q = 0 then 100 else Limit q)"
    define endc where "endc = Offset q + lim"
    have n: "length pre < 2 ^ 64" using bound by simp
    note w = wrap_window [OF n, of "Offset q" lim, folded endc_def]
    obtain nk' c' where loop:
      "Paginate_loop ln True ?mdl (Offset q) endc (if Limit q = 0 then True else CountTotal q)
         (Key q) s (Some []) 0 None (deref dest)
       = Some (Some err, nk', c', s2,
           (if unat (0 :: 64 word) \<le> unat endc \<and> unat (Offset q) \<le> unat endc
               \<and> unat endc - unat (0 :: 64 word) < length pre
            then foldl Append (Some []) (map (valOf ?mdl)
                   (take (unat endc - max (unat (0 :: 64 word)) (unat (Offset q)))
                      (drop (unat (Offset q) - unat (0 :: 64 word)) pre)))
            else deref dest))"
      using Paginate_loop_fails [OF em fail nd good past bound ct key] by blast
    have d: "(if unat (0 :: 64 word) \<le> unat endc \<and> unat (Offset q) \<le> unat endc
               \<and> unat endc - unat (0 :: 64 word) < length pre
            then foldl Append (Some []) (map (valOf ?mdl)
                   (take (unat endc - max (unat (0 :: 64 word)) (unat (Offset q)))
                      (drop (unat (Offset q) - unat (0 :: 64 word)) pre)))
            else deref dest)
          = (if unat (Offset q) + unat lim < length pre
             then Some (map (valOf ?mdl) (take (unat lim) (drop (unat (Offset q)) pre)))
             else deref dest)"
    proof (cases "unat (Offset q) + unat lim < length pre")
      case True
      then show ?thesis using w by (simp add: foldl_Append_Some)
    next
      case False
      then have "\<not> (unat (Offset q) \<le> unat endc \<and> unat endc < length pre)"
        using w(1) by blast
      then show ?thesis using False by auto
    qed
    have "Paginate impl New ln cl (Some s) (Some q) dest
          = Some (Fails err, Some (snd (cl s2)),
                  (if unat (Offset q) + unat lim < length pre
                   then Set_dest dest (Some (map (valOf ?mdl) (take (unat lim) (drop (unat (Offset q)) pre))))
                   else dest))"
      unfolding Paginate_checked [OF ad shape] using ok loop [unfolded d] Set_dest_deref [OF ad]
      by (simp add: lim_def [symmetric] endc_def [symmetric])
    then show "Paginate impl New ln cl (Some s) (Some q) dest
          = Some (Fails err, Some (snd (cl s2)),
                  (if unat (Offset q) + unat ?limit < length pre
                   then Set_dest dest (Some (map (valOf ?mdl) (take (unat ?limit) (drop (unat (Offset q)) pre))))
                   else dest))"
      unfolding lim_def .
  qed
qed

theorem destination_on_error_witness:
  "ReadAll impl_GroupInfo New_nat Replay_LoadNext Replay_Close (Some (rows_then_error, False))
       (GroupInfos (Some [4]))
     = Some (Fails (Errorf ''bad wire type''), Some ([], True), GroupInfos (Some [4]))
   \<and> Paginate impl_GroupInfo New_nat Replay_LoadNext Replay_Close (Some (rows_then_error, False))
       (Some \<lparr>Key = None, Offset = 0, Limit = 5, CountTotal = False\<rparr>) (GroupInfos (Some [4]))
     = Some (Fails (Errorf ''bad wire type''), Some ([], True), GroupInfos (Some [4]))
   \<and> Paginate impl_GroupInfo New_nat Replay_LoadNext Replay_Close (Some (rows_then_error, False))
       (Some \<lparr>Key = None, Offset = 0, Limit = 2, CountTotal = True\<rparr>) (GroupInfos (Some [4]))
     = Some (Fails (Errorf ''bad wire type''), Some ([], True), GroupInfos (Some [10, 20]))
   \<and> Paginate impl_GroupInfo New_nat Replay_LoadNext Replay_Close (Some (rows_then_error, False))
       (Some \<lparr>Key = None, Offset = 0, Limit = 10, CountTotal = True\<rparr>) (GroupInfos (Some [4]))
     = Some (Fails (Errorf ''bad wire type''), Some ([], True), GroupInfos (Some [4]))"
proof -
  let ?mdl = "modelZero New_nat (StructT ''GroupInfo'')"
  let ?bad = "(Some [4], Some (Errorf ''bad wire type''), Some 0) :: nat LoadResult"
  have r: "ReadAll impl_GroupInfo New_nat Replay_LoadNext Replay_Close (Some (rows_then_error, False))
       (GroupInfos (Some [4]))
     = Some (Fails (Errorf ''bad wire type''), Some ([], True), GroupInfos (Some [4]))"
    by (simp add: eval_defs)
  have p: "Paginate impl_GroupInfo New_nat Replay_LoadNext Replay_Close (Some (rows_then_error, False))
       (Some \<lparr>Key = None, Offset = 0, Limit = 5, CountTotal = False\<rparr>) (GroupInfos (Some [4]))
     = Some (Fails (Errorf ''bad wire type''), Some ([], True), GroupInfos (Some [4]))"
    by (simp add: eval_defs)
  have h1: "ReadAll impl_GroupInfo New_nat Replay_LoadNext Replay_Close (Some (rows_then_error, False))
       (GroupInfos (Some [4]))
     = Some (Fails (Errorf ''bad wire type''), Some ([], True), GroupInfos (Some [4]))
     \<and> (\<forall>x. Fails (Errorf ''bad wire type'') \<noteq> (Returns x :: RowID list option go_result))"
    using r by simp
  have h2: "Paginate impl_GroupInfo New_nat Replay_LoadNext Replay_Close (Some (rows_then_error, False))
       (Some \<lparr>Key = None, Offset = 0, Limit = 5, CountTotal = False\<rparr>) (GroupInfos (Some [4]))
     = Some (Fails (Errorf ''bad wire type''), Some ([], True), GroupInfos (Some [4]))
     \<and> \<not> ((CountTotal \<lparr>Key = None, Offset = 0, Limit = 5, CountTotal = False\<rparr>
             \<or> Limit \<lparr>Key = None, Offset = 0, Limit = 5, CountTotal = False\<rparr> = 0)
            \<and> len (Key \<lparr>Key = None, Offset = 0, Limit = 5, CountTotal = False\<rparr>) = 0)"
    using p by simp
  have ok3: "\<forall>r \<in> set three_rows. \<not> Is ErrIteratorDone (errOf r)" by (simp add: three_rows_def)
  have em: "emits Replay_LoadNext ?mdl (rows_then_error, False) three_rows ([?bad], False)"
    using Replay_emits [OF ok3, of ?mdl "[?bad]" False] by (simp add: rows_then_error_def)
  have fail: "Replay_LoadNext (Some ?mdl) ([?bad], False) = (?bad, ([], False))"
    by (simp add: Replay_LoadNext_def)
  have good: "\<forall>i < length three_rows. unat (0 :: 64 word) \<le> i \<longrightarrow> errOf (three_rows ! i) = None"
  proof -
    have "\<forall>r \<in> set three_rows. errOf r = None" by (simp add: three_rows_def)
    then show ?thesis by simp
  qed
  have l3: "length three_rows = 3" by (simp add: three_rows_def)
  have h3: "emits Replay_LoadNext ?mdl (rows_then_error, False) three_rows ([?bad], False)
      \<and> Replay_LoadNext (Some ?mdl) ([?bad], False)
          = ((Some [4], Some (Errorf ''bad wire type''), Some 0), ([], False))
      \<and> \<not> Is ErrIteratorDone (Some (Errorf ''bad wire type''))
      \<and> (\<forall>i < length three_rows. unat (Offset \<lparr>Key = None, Offset = 0, Limit = lim, CountTotal = True\<rparr>) \<le> i
            \<longrightarrow> errOf (three_rows ! i) = None)
      \<and> unat (Offset \<lparr>Key = None, Offset = 0, Limit = lim, CountTotal = True\<rparr>) \<le> length three_rows
      \<and> length three_rows + 1 < 2 ^ 64
      \<and> assertDest impl_GroupInfo (GroupInfos (Some [4])) = Inr (StructT ''GroupInfo'', Some [])
      \<and> impl_GroupInfo (modelType (StructT ''GroupInfo''))
      \<and> \<not> (Offset \<lparr>Key = None, Offset = 0, Limit = lim, CountTotal = True\<rparr> > 0
            \<and> Key \<lparr>Key = None, Offset = 0, Limit = lim, CountTotal = True\<rparr> \<noteq> None)
      \<and> (CountTotal \<lparr>Key = None, Offset = 0, Limit = lim, CountTotal = True\<rparr>
            \<or> Limit \<lparr>Key = None, Offset = 0, Limit = lim, CountTotal = True\<rparr> = 0)
      \<and> len (Key \<lparr>Key = None, Offset = 0, Limit = lim, CountTotal = True\<rparr>) = 0" for lim
    using em fail good l3 GroupInfos_valid by simp
  note t1 = destination_on_error [THEN conjunct1, THEN mp, OF h1]
  note t2 = destination_on_error [THEN conjunct2, THEN conjunct2, THEN conjunct2, THEN conjunct1,
              THEN mp, OF h2]
  note t3 = destination_on_error [where cl = Replay_Close,
              THEN conjunct2, THEN conjunct2, THEN conjunct2, THEN conjunct2, THEN mp, OF h3 [of 2]]
  note t4 = destination_on_error [where cl = Replay_Close,
              THEN conjunct2, THEN conjunct2, THEN conjunct2, THEN conjunct2, THEN mp, OF h3 [of 10]]
  have v: "map (valOf ?mdl) (take 2 three_rows) = [10, 20]" by (simp add: three_rows_def)
  from t3 have c3: "Paginate impl_GroupInfo New_nat Replay_LoadNext Replay_Close (Some (rows_then_error, False))
       (Some \<lparr>Key = None, Offset = 0, Limit = 2, CountTotal = True\<rparr>) (GroupInfos (Some [4]))
     = Some (Fails (Errorf ''bad wire type''), Some ([], True), GroupInfos (Some [10, 20]))"
    by (simp add: l3 v Replay_Close_def GroupInfos_def)
  from t4 have c4: "Paginate impl_GroupInfo New_nat Replay_LoadNext Replay_Close (Some (rows_then_error, False))
       (Some \<lparr>Key = None, Offset = 0, Limit = 10, CountTotal = True\<rparr>) (GroupInfos (Some [4]))
     = Some (Fails (Errorf ''bad wire type''), Some ([], True), GroupInfos (Some [4]))"
    by (simp add: l3 Replay_Close_def GroupInfos_def)
  from t1 t2 r p c3 c4 show ?thesis by simp
qed

text \<open>
  C10 as stated fails for \<open>Paginate\<close> when it counts the total: with limit 1 the slice
  is committed when the second row is read, the scan goes on, and the error of the
  fourth row is returned with the destination already changed.
\<close>

theorem destination_on_error_counterexample:
  "Paginate impl_GroupInfo New_nat Replay_LoadNext Replay_Close (Some (rows_then_error, False))
       (Some \<lparr>Key = None, Offset = 0, Limit = 1, CountTotal = True\<rparr>) (GroupInfos (Some [4]))
     = Some (Fails (Errorf ''bad wire type''), Some ([], True), GroupInfos (Some [10]))
   \<and> GroupInfos (Some [10]) \<noteq> GroupInfos (Some [4])"
  by (simp add: eval_defs)

subsection \<open>Two paths of Paginate\<close>

text \<open>
  C1. A decode error of a record within the offset window is not returned: the error
  is tested only after the \<open>continue\<close> of the window. With offset 1 over a single-value
  iterator whose buffer fails to decode, \<open>Paginate\<close> returns without error and commits
  the empty slice; with offset 0 the same error is returned.
\<close>

theorem Paginate_swallows_error_in_offset_window:
  "Paginate impl_GroupInfo New_nat (NewSingleValueIterator Unmarshal_nat (Some [7]) (Some [255]))
       IteratorFunc_Close (Some False)
       (Some \<lparr>Key = None, Offset = 1, Limit = 10, CountTotal = False\<rparr>) (GroupInfos None)
     = Some (Returns \<lparr>NextKey = None, Total = 0\<rparr>, Some True, GroupInfos (Some []))
   \<and> Paginate impl_GroupInfo New_nat (NewSingleValueIterator Unmarshal_nat (Some [7]) (Some [255]))
       IteratorFunc_Close (Some False)
       (Some \<lparr>Key = None, Offset = 0, Limit = 10, CountTotal = False\<rparr>) (GroupInfos None)
     = Some (Fails (Errorf ''bad wire type''), Some True, GroupInfos None)"
  by (simp add: eval_defs NewSingleValueIterator_def Unmarshal_nat_def IteratorFunc_Close_def)

text \<open>
  C2. With an offset above 0 and a key that is not \<open>nil\<close>, \<open>Paginate\<close> returns the plain
  error and has not called \<open>LoadNext\<close>, but it returns before \<open>defer it.Close()\<close>: the
  iterator is left open (its flag is still \<open>False\<close>). A failed validation of the
  destination, a return after the \<open>defer\<close>, closes it.
\<close>

theorem Paginate_offset_and_key_leaves_iterator_open:
  "Paginate impl_GroupInfo New_nat Replay_LoadNext Replay_Close (Some (three_rows, False))
       (Some \<lparr>Key = Some [2], Offset = 1, Limit = 10, CountTotal = False\<rparr>) (GroupInfos None)
     = Some (Fails (Errorf ''invalid request, either offset or key is expected, got both''),
             Some (three_rows, False), GroupInfos None)
   \<and> Paginate impl_GroupInfo New_nat Replay_LoadNext Replay_Close (Some (three_rows, False))
       (Some \<lparr>Key = None, Offset = 1, Limit = 10, CountTotal = False\<rparr>) (NilInterface :: nat ModelSlicePtr)
     = Some (Fails (Wrap ErrArgument ''destination must not be nil''),
             Some (three_rows, True), NilInterface)"
  by (simp add: Paginate_def assertDest_def Replay_Close_def)

end
